theory Spec2Isabelle
  imports Main "HOL-Library.Word"
begin

section \<open>JavaScript strings and Node buffers\<close>

text \<open>
  A JavaScript string is a sequence of UTF-16 code units and \<open>s.length\<close> counts them.
  A Node \<open>Buffer\<close> is a sequence of bytes and \<open>buffer.length\<close> counts bytes.
  The handlers of \<open>src/index.js\<close> move between the two with \<open>Buffer.byteLength\<close>,
  \<open>buffer.write\<close>, \<open>Buffer.from(s, 'utf-8')\<close> and \<open>buffer.toString('utf-8')\<close>;
  these runtime functions are modelled here after their documentation.
\<close>

type_synonym byte = "8 word"
type_synonym jsstring = "16 word list"

definition is_high_surrogate :: "16 word \<Rightarrow> bool" where
  "is_high_surrogate u \<longleftrightarrow> 0xD800 \<le> u \<and> u \<le> 0xDBFF"

definition is_low_surrogate :: "16 word \<Rightarrow> bool" where
  "is_low_surrogate u \<longleftrightarrow> 0xDC00 \<le> u \<and> u \<le> 0xDFFF"

definition replacement_bytes :: "byte list" where
  "replacement_bytes = [0xEF, 0xBF, 0xBD]"

text \<open>The UTF-8 bytes of one code point.\<close>

definition utf8_of_cp :: "nat \<Rightarrow> byte list" where
  "utf8_of_cp cp =
     (if cp < 0x80 then [of_nat cp]
      else if cp < 0x800 then [of_nat (0xC0 + cp div 64), of_nat (0x80 + cp mod 64)]
      else if cp < 0x10000 then
        [of_nat (0xE0 + cp div 4096), of_nat (0x80 + cp div 64 mod 64), of_nat (0x80 + cp mod 64)]
      else
        [of_nat (0xF0 + cp div 262144), of_nat (0x80 + cp div 4096 mod 64),
         of_nat (0x80 + cp div 64 mod 64), of_nat (0x80 + cp mod 64)])"

text \<open>
  The characters of a string, each as its UTF-8 bytes: a surrogate pair is one
  character of four bytes, a lone surrogate is written as U+FFFD.
\<close>

fun utf8_chars :: "jsstring \<Rightarrow> byte list list" where
  "utf8_chars [] = []"
| "utf8_chars [u] =
     [if is_high_surrogate u \<or> is_low_surrogate u then replacement_bytes
      else utf8_of_cp (unat u)]"
| "utf8_chars (u # v # rest) =
     (if is_high_surrogate u \<and> is_low_surrogate v then
        utf8_of_cp (0x10000 + (unat u - 0xD800) * 1024 + (unat v - 0xDC00)) # utf8_chars rest
      else if is_high_surrogate u \<or> is_low_surrogate u then
        replacement_bytes # utf8_chars (v # rest)
      else utf8_of_cp (unat u) # utf8_chars (v # rest))"

text \<open>\<open>Buffer.from(s, 'utf-8')\<close>.\<close>

definition utf8_encode :: "jsstring \<Rightarrow> byte list" where
  "utf8_encode s = concat (utf8_chars s)"

text \<open>\<open>Buffer.byteLength(s)\<close>.\<close>

definition byteLength :: "jsstring \<Rightarrow> nat" where
  "byteLength s = length (utf8_encode s)"

text \<open>
  \<open>buffer.write(s)\<close>: the UTF-8 bytes of \<open>s\<close> are written from offset 0; when the
  buffer is too short only the characters that fit whole are written.
\<close>

fun fit :: "nat \<Rightarrow> byte list list \<Rightarrow> byte list" where
  "fit n [] = []"
| "fit n (c # cs) = (if length c \<le> n then c @ fit (n - length c) cs else [])"

definition buffer_write :: "byte list \<Rightarrow> jsstring \<Rightarrow> byte list" where
  "buffer_write buffer s =
     (let written = fit (length buffer) (utf8_chars s)
      in written @ drop (length written) buffer)"

text \<open>
  \<open>buffer.toString('utf-8')\<close>: the UTF-8 decoder, with every ill-formed sequence
  replaced by U+FFFD. The state is the code point read so far, the number of
  continuation bytes still needed and the range allowed for the next byte.
\<close>

fun utf8_decode :: "nat \<Rightarrow> nat \<Rightarrow> nat \<Rightarrow> nat \<Rightarrow> byte list \<Rightarrow> nat list" where
  "utf8_decode cp needed lo hi [] = (if needed = 0 then [] else [0xFFFD])"
| "utf8_decode cp needed lo hi (b # bs) =
     (let n = unat b in
      if needed = 0 then
        if n \<le> 0x7F then n # utf8_decode 0 0 0x80 0xBF bs
        else if 0xC2 \<le> n \<and> n \<le> 0xDF then utf8_decode (n - 0xC0) 1 0x80 0xBF bs
        else if 0xE0 \<le> n \<and> n \<le> 0xEF then
          utf8_decode (n - 0xE0) 2 (if n = 0xE0 then 0xA0 else 0x80)
            (if n = 0xED then 0x9F else 0xBF) bs
        else if 0xF0 \<le> n \<and> n \<le> 0xF4 then
          utf8_decode (n - 0xF0) 3 (if n = 0xF0 then 0x90 else 0x80)
            (if n = 0xF4 then 0x8F else 0xBF) bs
        else 0xFFFD # utf8_decode 0 0 0x80 0xBF bs
      else if n < lo \<or> hi < n then 0xFFFD # utf8_decode 0 0 0x80 0xBF (b # bs)
      else if needed = 1 then (cp * 64 + (n - 0x80)) # utf8_decode 0 0 0x80 0xBF bs
      else utf8_decode (cp * 64 + (n - 0x80)) (needed - 1) 0x80 0xBF bs)"

definition utf16_of_cp :: "nat \<Rightarrow> jsstring" where
  "utf16_of_cp cp =
     (if cp < 0x10000 then [of_nat cp]
      else [of_nat (0xD800 + (cp - 0x10000) div 1024), of_nat (0xDC00 + (cp - 0x10000) mod 1024)])"

definition toString :: "byte list \<Rightarrow> jsstring" where
  "toString buffer = concat (map utf16_of_cp (utf8_decode 0 0 0x80 0xBF buffer))"

text \<open>\<open>s.replace(/\0/g, '')\<close>.\<close>

definition strip_nulls :: "jsstring \<Rightarrow> jsstring" where
  "strip_nulls s = filter (\<lambda>u. u \<noteq> 0) s"

text \<open>\<open>s.trim()\<close> removes white space and line terminators at both ends.\<close>

definition is_white_space :: "16 word \<Rightarrow> bool" where
  "is_white_space u \<longleftrightarrow>
     u \<in> {0x09, 0x0A, 0x0B, 0x0C, 0x0D, 0x20, 0xA0, 0x1680, 0x2028, 0x2029, 0x202F,
          0x205F, 0x3000, 0xFEFF} \<or> (0x2000 \<le> u \<and> u \<le> 0x200A)"

definition trim :: "jsstring \<Rightarrow> jsstring" where
  "trim s = rev (dropWhile is_white_space (rev (dropWhile is_white_space s)))"

definition startsWith :: "jsstring \<Rightarrow> 16 word \<Rightarrow> bool" where
  "startsWith s c = (case s of [] \<Rightarrow> False | u # _ \<Rightarrow> u = c)"

definition endsWith :: "jsstring \<Rightarrow> 16 word \<Rightarrow> bool" where
  "endsWith s c = (case rev s of [] \<Rightarrow> False | u # _ \<Rightarrow> u = c)"

text \<open>\<open>buffer.slice(start, end)\<close>.\<close>

definition slice :: "byte list \<Rightarrow> nat \<Rightarrow> nat \<Rightarrow> byte list" where
  "slice buffer start end' = take (end' - start) (drop start buffer)"

section \<open>The reader\<close>

text \<open>
  The reader object of the \<open>nfc-pcsc\<close> driver, as far as the handlers use it:
  the \<open>card\<close> property (absent when no card is on the reader), and the tag's pages
  behind \<open>read\<close> and \<open>write\<close>. \<open>pages r blk = None\<close> is a page whose read
  fails; \<open>writable r blk\<close> tells whether a write to the page succeeds. Every call
  of \<open>read\<close> or \<open>write\<close> is recorded in \<open>log\<close>, the failed ones too.
\<close>

datatype io = Read nat nat | Write nat "byte list"

datatype exn = DriverError | TypeError | FramingError | SyntaxError

record 'c reader =
  card :: "'c option"
  pages :: "nat \<Rightarrow> byte list option"
  writable :: "nat \<Rightarrow> bool"
  log :: "io list"

definition reader_read :: "'c reader \<Rightarrow> nat \<Rightarrow> nat \<Rightarrow> (exn + byte list) \<times> 'c reader" where
  "reader_read r blk len =
     ((case pages r blk of None \<Rightarrow> Inl DriverError | Some chunk \<Rightarrow> Inr chunk),
      r\<lparr>log := log r @ [Read blk len]\<rparr>)"

definition reader_write :: "'c reader \<Rightarrow> nat \<Rightarrow> byte list \<Rightarrow> (exn + unit) \<times> 'c reader" where
  "reader_write r blk chunk =
     (if writable r blk then
        (Inr (), r\<lparr>pages := (pages r)(blk \<mapsto> chunk), log := log r @ [Write blk chunk]\<rparr>)
      else (Inl DriverError, r\<lparr>log := log r @ [Write blk chunk]\<rparr>))"

section \<open>The session: \<open>currentReader\<close> and the events\<close>

text \<open>
  \<open>currentReader\<close> is \<open>null\<close> at the start, the reader on \<open>reader\<close> and \<open>null\<close>
  again on \<open>end\<close>. The handlers of \<open>card\<close>, \<open>card.off\<close> and \<open>error\<close> only log.
\<close>

definition initial_currentReader :: "'c reader option" where
  "initial_currentReader = None"

definition on_reader :: "'c reader \<Rightarrow> 'c reader option \<Rightarrow> 'c reader option" where
  "on_reader reader currentReader = Some reader"

definition on_end :: "'c reader option \<Rightarrow> 'c reader option" where
  "on_end currentReader = None"

definition on_card :: "'c \<Rightarrow> 'c reader option \<Rightarrow> 'c reader option" where
  "on_card c currentReader = currentReader"

definition on_card_off :: "'c \<Rightarrow> 'c reader option \<Rightarrow> 'c reader option" where
  "on_card_off c currentReader = currentReader"

section \<open>Responses\<close>

datatype 'p body = Text string | Message string | Error string | Data 'p

datatype 'p response = Response nat "'p body"

definition MissingData :: "'p response" where
  "MissingData = Response 400 (Text ''Missing 'data' field in the request body.'')"

definition NoReaderAvailable :: "'p response" where
  "NoReaderAvailable = Response 500 (Text ''No NFC reader connected.'')"

definition PayloadTooLarge :: "'p response" where
  "PayloadTooLarge = Response 400 (Text ''Data exceeds the maximum size of 180 bytes.'')"

definition WriteOk :: "'p response" where
  "WriteOk = Response 200 (Message ''Data successfully written to NFC tag'')"

definition WriteFailed :: "'p response" where
  "WriteFailed = Response 500 (Error ''Error writing to NFC tag'')"

definition NoCardPresent :: "'p response" where
  "NoCardPresent = Response 404 (Text ''No card detected. Place a card on the reader.'')"

definition ReadFailed :: "'p response" where
  "ReadFailed = Response 500 (Text ''Error reading NFC tag'')"

section \<open>\<open>POST /nfcWrite\<close>\<close>

text \<open>
  \<open>req.body\<close> as \<open>express.json()\<close> leaves it: an object (or array) with the parsed
  content \<open>'p\<close>, or no value. \<open>const { ...data } = req.body\<close> throws a
  \<open>TypeError\<close> on \<open>undefined\<close> and \<open>null\<close> and otherwise builds a new object
  with the properties of the body. Objects are truthy.
\<close>

datatype 'p jsvalue = Undefined | Null | Object 'p

fun truthy :: "'p jsvalue \<Rightarrow> bool" where
  "truthy Undefined = False"
| "truthy Null = False"
| "truthy (Object p) = True"

fun object_rest :: "'p jsvalue \<Rightarrow> exn + 'p" where
  "object_rest Undefined = Inl TypeError"
| "object_rest Null = Inl TypeError"
| "object_rest (Object p) = Inr p"

definition blockSize :: nat where
  "blockSize = 4"

text \<open>\<open>Math.ceil(len / blockSize) * blockSize\<close>.\<close>

definition padded_length :: "nat \<Rightarrow> nat" where
  "padded_length len = ((len + (blockSize - 1)) div blockSize) * blockSize"

text \<open>Lines 79 and 80: the zero-filled buffer with the string written into it.\<close>

definition make_buffer :: "jsstring \<Rightarrow> byte list" where
  "make_buffer dataString =
     buffer_write (replicate (padded_length (length dataString)) 0) dataString"

text \<open>
  The \<open>for\<close> loop of lines 82 to 86. A write that throws ends the loop, and the
  blocks written before it stay written.
\<close>

function write_loop :: "'c reader \<Rightarrow> byte list \<Rightarrow> nat \<Rightarrow> (exn + unit) \<times> 'c reader" where
  "write_loop r buffer i =
     (if i * blockSize < length buffer then
        (let chunk = slice buffer (i * blockSize) ((i + 1) * blockSize)
         in (case reader_write r (4 + i) chunk of
               (Inl e, r') \<Rightarrow> (Inl e, r')
             | (Inr u, r') \<Rightarrow> write_loop r' buffer (i + 1)))
      else (Inr (), r))"
  by pat_completeness auto
termination
  by (relation "measure (\<lambda>(r, buffer, i). length buffer - i * blockSize)")
     (auto simp: blockSize_def)

declare write_loop.simps [simp del]

text \<open>
  The handler. \<open>stringify\<close> is \<open>JSON.stringify\<close>. The result is the response and
  \<open>currentReader\<close> after the request.
\<close>

definition nfcWrite ::
  "('p \<Rightarrow> jsstring) \<Rightarrow> 'c reader option \<Rightarrow> 'p jsvalue \<Rightarrow> 'q response \<times> 'c reader option" where
  "nfcWrite stringify currentReader req_body =
     (case object_rest req_body of
        Inl e \<Rightarrow> (WriteFailed, currentReader)
      | Inr data \<Rightarrow>
          if \<not> truthy (Object data) then (MissingData, currentReader)
          else (case currentReader of
            None \<Rightarrow> (NoReaderAvailable, currentReader)
          | Some r \<Rightarrow>
              (let dataString = stringify data in
               if byteLength dataString > 180 then (PayloadTooLarge, currentReader)
               else
                 (let buffer = make_buffer dataString in
                  (case write_loop r buffer 0 of
                     (Inl e, r') \<Rightarrow> (WriteFailed, Some r')
                   | (Inr u, r') \<Rightarrow> (WriteOk, Some r'))))))"

section \<open>\<open>GET /nfcRead\<close>\<close>

text \<open>Line 118: the text of a chunk, with its null characters removed.\<close>

definition chunk_data :: "byte list \<Rightarrow> jsstring" where
  "chunk_data chunk = strip_nulls (toString chunk)"

text \<open>
  The \<open>do ... while (unfinished)\<close> loop of lines 113 to 129. Nothing bounds the
  block index, so the loop is a partial function: \<open>None\<close> is the loop that never
  ends. The result is the buffer, the counter \<open>i\<close> and the reader.
\<close>

partial_function (option) read_loop ::
  "'c reader \<Rightarrow> nat \<Rightarrow> byte list \<Rightarrow> (byte list \<times> nat \<times> 'c reader) option" where
  "read_loop r i buffer =
     (case reader_read r (4 + i) blockSize of
        (Inl e, r') \<Rightarrow> Some (buffer, i, r')
      | (Inr chunk, r') \<Rightarrow>
          (let chunkData = chunk_data chunk;
               buffer' = buffer @ utf8_encode chunkData;
               unfinished = \<not> length chunkData < blockSize
           in if unfinished then read_loop r' (i + 1) buffer'
              else Some (buffer', i + 1, r')))"

declare read_loop.simps [code]

text \<open>
  Lines 131 to 140: the reconstructed string, the framing check and
  \<open>JSON.parse\<close> (here \<open>parse\<close>, \<open>None\<close> when it throws).
\<close>

definition reconstruct :: "byte list \<Rightarrow> jsstring" where
  "reconstruct buffer = trim (strip_nulls (toString buffer))"

definition parse_data :: "(jsstring \<Rightarrow> 'p option) \<Rightarrow> jsstring \<Rightarrow> exn + 'p" where
  "parse_data parse dataString =
     (if \<not> startsWith dataString 0x7B \<or> \<not> endsWith dataString 0x7D then Inl FramingError
      else (case parse dataString of None \<Rightarrow> Inl SyntaxError | Some data \<Rightarrow> Inr data))"

text \<open>The handler; \<open>None\<close> when the read loop never ends and no response is sent.\<close>

definition nfcRead ::
  "(jsstring \<Rightarrow> 'p option) \<Rightarrow> 'c reader option \<Rightarrow> ('p response \<times> 'c reader option) option" where
  "nfcRead parse currentReader =
     (case currentReader of
        None \<Rightarrow> Some (NoReaderAvailable, currentReader)
      | Some r \<Rightarrow>
          if card r = None then Some (NoCardPresent, currentReader)
          else (case read_loop r 0 [] of
            None \<Rightarrow> None
          | Some (buffer, i, r') \<Rightarrow>
              (case parse_data parse (reconstruct buffer) of
                 Inl e \<Rightarrow> Some (ReadFailed, Some r')
               | Inr data \<Rightarrow> Some (Response 200 (Data data), Some r'))))"

section \<open>Notions used in the statements\<close>

text \<open>The reader after further calls \<open>ios\<close> of \<open>read\<close> and \<open>write\<close>.\<close>

definition logged :: "'c reader \<Rightarrow> io list \<Rightarrow> 'c reader" where
  "logged r ios = r\<lparr>log := log r @ ios\<rparr>"

text \<open>
  Iteration \<open>j\<close> of the read loop goes on to the next one: the read of block
  \<open>4 + j\<close> succeeds and its text has no fewer than \<open>blockSize\<close> characters.
\<close>

definition full :: "'c reader \<Rightarrow> nat \<Rightarrow> bool" where
  "full r j =
     (case pages r (4 + j) of
        None \<Rightarrow> False
      | Some chunk \<Rightarrow> \<not> length (chunk_data chunk) < blockSize)"

text \<open>The bytes that iteration \<open>j\<close> of the read loop appends to the buffer.\<close>

definition block_bytes :: "'c reader \<Rightarrow> nat \<Rightarrow> byte list" where
  "block_bytes r j =
     (case pages r (4 + j) of None \<Rightarrow> [] | Some chunk \<Rightarrow> utf8_encode (chunk_data chunk))"

text \<open>The chunk of iteration \<open>j\<close> of the write loop, and the number of iterations.\<close>

definition block_of :: "byte list \<Rightarrow> nat \<Rightarrow> byte list" where
  "block_of buffer j = slice buffer (j * blockSize) ((j + 1) * blockSize)"

definition block_count :: "byte list \<Rightarrow> nat" where
  "block_count buffer = (length buffer + (blockSize - 1)) div blockSize"

definition store_blocks ::
  "byte list \<Rightarrow> nat list \<Rightarrow> (nat \<Rightarrow> byte list option) \<Rightarrow> (nat \<Rightarrow> byte list option)" where
  "store_blocks buffer js m = fold (\<lambda>j m. m(4 + j \<mapsto> block_of buffer j)) js m"

text \<open>
  The number of UTF-16 code units, the null ones apart, that a list of code
  points makes.
\<close>

definition units :: "nat list \<Rightarrow> nat" where
  "units cps = length (strip_nulls (concat (map utf16_of_cp cps)))"

text \<open>A string of ASCII characters only.\<close>

definition ascii :: "jsstring \<Rightarrow> bool" where
  "ascii s \<longleftrightarrow> (\<forall>u \<in> set s. u < 0x80)"

text \<open>
  Readers to evaluate the handlers on: a reader with a card whose tag holds the
  given blocks and fails to read any other, and one whose tag returns the same
  chunk for every block. Every write succeeds on both.
\<close>

definition reader_of :: "(nat \<times> byte list) list \<Rightarrow> unit reader" where
  "reader_of blocks = \<lparr>card = Some (), pages = map_of blocks, writable = (\<lambda>blk. True), log = []\<rparr>"

definition uniform_reader :: "byte list \<Rightarrow> unit reader" where
  "uniform_reader chunk =
     \<lparr>card = Some (), pages = (\<lambda>blk. Some chunk), writable = (\<lambda>blk. True), log = []\<rparr>"

text \<open>An ASCII string of \<open>n\<close> bytes, for \<open>n\<close> from 8 on: an object with one key.\<close>

definition payload_of_size :: "nat \<Rightarrow> jsstring" where
  "payload_of_size n = [0x7B, 0x22, 0x6B, 0x22, 0x3A, 0x22] @ replicate (n - 8) 0x61 @ [0x22, 0x7D]"

text \<open>
  Two payloads, the first of 16 bytes and the second of 8, and the string that
  is read after the second is written over the first.
\<close>

definition long_payload :: jsstring where
  "long_payload = [0x7B, 0x22, 0x61, 0x22, 0x3A, 0x22, 0x78, 0x78, 0x78, 0x78, 0x78, 0x78, 0x78, 0x78, 0x22, 0x7D]"

definition short_payload :: jsstring where
  "short_payload = [0x7B, 0x22, 0x61, 0x22, 0x3A, 0x31, 0x32, 0x7D]"

definition stale_read :: jsstring where
  "stale_read = [0x7B, 0x22, 0x61, 0x22, 0x3A, 0x31, 0x32, 0x7D, 0x78, 0x78, 0x78, 0x78, 0x78, 0x78, 0x22, 0x7D]"

text \<open>A parser that accepts one string only.\<close>

definition parse_only :: "jsstring \<Rightarrow> jsstring \<Rightarrow> jsstring option" where
  "parse_only known s = (if s = known then Some s else None)"

section \<open>The loops\<close>

lemma logged_simps [simp]:
  "pages (logged r ios) = pages r" "card (logged r ios) = card r"
  "writable (logged r ios) = writable r" "log (logged r ios) = log r @ ios"
  by (simp_all add: logged_def)

lemma logged_logged: "logged (logged r xs) ys = logged r (xs @ ys)"
  by (simp add: logged_def)

lemma full_logged [simp]: "full (logged r ios) j = full r j"
  by (simp add: full_def)

lemma block_bytes_logged [simp]: "block_bytes (logged r ios) j = block_bytes r j"
  by (simp add: block_bytes_def)

lemma read_loop_fail:
  "pages r (4 + i) = None \<Longrightarrow> read_loop r i buffer = Some (buffer, i, logged r [Read (4 + i) blockSize])"
  by (subst read_loop.simps) (simp add: reader_read_def logged_def)

lemma read_loop_short:
  "pages r (4 + i) = Some chunk \<Longrightarrow> length (chunk_data chunk) < blockSize \<Longrightarrow>
   read_loop r i buffer =
     Some (buffer @ utf8_encode (chunk_data chunk), i + 1, logged r [Read (4 + i) blockSize])"
  by (subst read_loop.simps) (simp add: reader_read_def logged_def)

lemma read_loop_full:
  "full r i \<Longrightarrow>
   read_loop r i buffer = read_loop (logged r [Read (4 + i) blockSize]) (i + 1) (buffer @ block_bytes r i)"
  by (subst read_loop.simps)
     (auto simp: reader_read_def logged_def full_def block_bytes_def split: option.splits)

lemma read_loop_run:
  "(\<forall>j. i \<le> j \<and> j < i + n \<longrightarrow> full r j) \<Longrightarrow>
   read_loop r i buffer =
     read_loop (logged r (map (\<lambda>j. Read (4 + j) blockSize) [i..<i + n])) (i + n)
       (buffer @ concat (map (block_bytes r) [i..<i + n]))"
proof (induction n arbitrary: r i buffer)
  case 0
  then show ?case by (simp add: logged_def)
next
  case (Suc n)
  have f: "full r i" using Suc.prems by simp
  have rest: "\<forall>j. Suc i \<le> j \<and> j < Suc i + n \<longrightarrow> full (logged r [Read (4 + i) blockSize]) j"
    using Suc.prems by simp
  show ?case
    by (simp add: read_loop_full [OF f] Suc.IH [OF rest] logged_logged upt_conv_Cons del: upt_Suc)
qed

lemma read_loop_Some_not_full:
  assumes "read_loop r i buffer = Some res"
  shows "\<exists>k\<ge>i. \<not> full r k"
proof (rule read_loop.raw_induct [where P = "\<lambda>r i buffer res. \<exists>k\<ge>i. \<not> full r k", OF _ assms], goal_cases)
  case (1 read_loop' r i buffer res)
  show ?case
  proof (cases "full r i")
    case False
    then show ?thesis by blast
  next
    case True
    then obtain chunk where c: "pages r (4 + i) = Some chunk" "\<not> length (chunk_data chunk) < blockSize"
      by (auto simp: full_def split: option.splits)
    from 1(2) c have "read_loop' (logged r [Read (4 + i) blockSize]) (i + 1) (buffer @ utf8_encode (chunk_data chunk)) = Some res"
      by (simp add: reader_read_def logged_def Let_def)
    then have "\<exists>k\<ge>i + 1. \<not> full (logged r [Read (4 + i) blockSize]) k"
      by (rule 1(1))
    then obtain k where k: "i + 1 \<le> k" "\<not> full r k"
      by (auto simp only: full_logged)
    from k(1) have "i \<le> k" by simp
    with k(2) show ?thesis by blast
  qed
qed

lemma write_loop_all_writable:
  "(\<forall>j. i \<le> j \<and> j < block_count buffer \<longrightarrow> writable r (4 + j)) \<Longrightarrow>
   write_loop r buffer i =
     (Inr (), r\<lparr>pages := store_blocks buffer [i..<block_count buffer] (pages r),
                log := log r @ map (\<lambda>j. Write (4 + j) (block_of buffer j)) [i..<block_count buffer]\<rparr>)"
proof (induction r buffer i rule: write_loop.induct)
  case (1 r buffer i)
  show ?case
  proof (cases "i * blockSize < length buffer")
    case False
    then have "block_count buffer \<le> i" by (simp add: block_count_def blockSize_def)
    with False show ?thesis by (subst write_loop.simps) (simp add: store_blocks_def)
  next
    case True
    then have lt: "i < block_count buffer" by (simp add: block_count_def blockSize_def)
    then have w: "writable r (4 + i)" using 1(2) by simp
    let ?chunk = "slice buffer (i * blockSize) ((i + 1) * blockSize)"
    let ?r' = "r\<lparr>pages := (pages r)(4 + i \<mapsto> ?chunk), log := log r @ [Write (4 + i) ?chunk]\<rparr>"
    have rw: "reader_write r (4 + i) ?chunk = (Inr (), ?r')"
      using w by (simp add: reader_write_def)
    have ih: "write_loop ?r' buffer (i + 1) =
      (Inr (), ?r'\<lparr>pages := store_blocks buffer [i + 1..<block_count buffer] (pages ?r'),
                log := log ?r' @ map (\<lambda>j. Write (4 + j) (block_of buffer j)) [i + 1..<block_count buffer]\<rparr>)"
      by (rule 1(1) [OF True refl rw [symmetric] refl]) (use 1(2) in simp)
    have "write_loop r buffer i = write_loop ?r' buffer (i + 1)"
      using True rw by (subst write_loop.simps) (simp add: Let_def)
    also note ih
    finally show ?thesis
      using lt by (simp add: upt_conv_Cons store_blocks_def block_of_def)
  qed
qed

lemma write_loop_log_grows:
  "write_loop r buffer i = (res, r') \<Longrightarrow> \<exists>ios. log r' = log r @ ios \<and> (i * blockSize < length buffer \<longrightarrow> ios \<noteq> [])"
proof (induction r buffer i arbitrary: res r' rule: write_loop.induct)
  case (1 r buffer i)
  show ?case
  proof (cases "i * blockSize < length buffer")
    case False
    with 1(2) show ?thesis by (subst (asm) write_loop.simps) simp
  next
    case True
    let ?chunk = "slice buffer (i * blockSize) ((i + 1) * blockSize)"
    show ?thesis
    proof (cases "writable r (4 + i)")
      case False
      with True 1(2) show ?thesis
        by (subst (asm) write_loop.simps) (auto simp: reader_write_def Let_def)
    next
      case w: True
      let ?r' = "r\<lparr>pages := (pages r)(4 + i \<mapsto> ?chunk), log := log r @ [Write (4 + i) ?chunk]\<rparr>"
      have rw: "reader_write r (4 + i) ?chunk = (Inr (), ?r')"
        using w by (simp add: reader_write_def)
      have "write_loop r buffer i = write_loop ?r' buffer (i + 1)"
        using True rw by (subst write_loop.simps) (simp add: Let_def)
      with 1(2) have "write_loop ?r' buffer (i + 1) = (res, r')" by simp
      from 1(1) [OF True refl rw [symmetric] refl this]
      obtain ios where "log r' = log ?r' @ ios" by blast
      then show ?thesis by simp
    qed
  qed
qed

section \<open>Strings and responses\<close>

lemma replicate_numeral: "replicate (numeral k) x = x # replicate (pred_numeral k) x"
  by (simp add: numeral_eq_Suc)

lemma ascii_unit:
  assumes "u < (0x80 :: 16 word)"
  shows "\<not> is_high_surrogate u" "\<not> is_low_surrogate u" "utf8_of_cp (unat u) = [ucast u]"
proof -
  from assms have n: "unat u < 0x80" by (simp add: word_less_nat_alt)
  from assms show "\<not> is_high_surrogate u" "\<not> is_low_surrogate u"
    by (auto simp: is_high_surrogate_def is_low_surrogate_def word_less_nat_alt word_le_nat_alt)
  from n show "utf8_of_cp (unat u) = [ucast u]"
    by (simp add: utf8_of_cp_def)
qed

lemma utf8_chars_ascii: "ascii s \<Longrightarrow> utf8_chars s = map (\<lambda>u. [ucast u]) s"
  by (induction s rule: utf8_chars.induct) (simp_all add: ascii_def ascii_unit)

lemma utf8_encode_ascii: "ascii s \<Longrightarrow> utf8_encode s = map ucast s"
  by (simp add: utf8_encode_def utf8_chars_ascii)

lemma byteLength_ascii: "ascii s \<Longrightarrow> byteLength s = length s"
  by (simp add: byteLength_def utf8_encode_ascii)

lemma responses_distinct:
  "(WriteFailed :: 'p response) \<noteq> MissingData" "(NoReaderAvailable :: 'p response) \<noteq> MissingData"
  "(PayloadTooLarge :: 'p response) \<noteq> MissingData" "(WriteOk :: 'p response) \<noteq> MissingData"
  "(WriteOk :: 'p response) \<noteq> PayloadTooLarge" "(WriteFailed :: 'p response) \<noteq> PayloadTooLarge"
  by (simp_all add: MissingData_def WriteFailed_def NoReaderAvailable_def PayloadTooLarge_def
      WriteOk_def)

section \<open>The write handler\<close>

lemma nfcWrite_cases:
  "fst (nfcWrite stringify currentReader req_body) \<in>
     {WriteFailed, NoReaderAvailable, PayloadTooLarge, WriteOk}"
proof (cases "object_rest req_body")
  case (Inl e)
  then show ?thesis by (simp add: nfcWrite_def)
next
  case (Inr data)
  show ?thesis
  proof (cases currentReader)
    case None
    with Inr show ?thesis by (simp add: nfcWrite_def)
  next
    case (Some r)
    obtain res r' where wl: "write_loop r (make_buffer (stringify data)) 0 = (res, r')"
      by (cases "write_loop r (make_buffer (stringify data)) 0")
    show ?thesis
      using Inr Some wl by (cases res) (simp_all add: nfcWrite_def Let_def)
  qed
qed

text \<open>
  On a body that is \<open>undefined\<close> or \<open>null\<close> line 59 throws, before the reader
  is looked at, and the handler answers that the write failed.
\<close>

lemma nfcWrite_no_body:
  "nfcWrite stringify currentReader Undefined = (WriteFailed, currentReader)"
  "nfcWrite stringify currentReader Null = (WriteFailed, currentReader)"
  by (simp_all add: nfcWrite_def)

lemma nfcWrite_small:
  assumes "byteLength (stringify p) \<le> 180"
  shows "nfcWrite stringify (Some r) (Object p) =
    (case write_loop r (make_buffer (stringify p)) 0 of
       (Inl e, r') \<Rightarrow> (WriteFailed, Some r') | (Inr u, r') \<Rightarrow> (WriteOk, Some r'))"
  using assms by (simp add: nfcWrite_def Let_def)

section \<open>The read loop, from its start\<close>

lemma read_loop_ends_short:
  assumes "\<forall>j<k. full r j" "pages r (4 + k) = Some chunk" "length (chunk_data chunk) < blockSize"
  shows "read_loop r 0 [] =
    Some (concat (map (block_bytes r) [0..<k]) @ utf8_encode (chunk_data chunk), k + 1,
          logged r (map (\<lambda>j. Read (4 + j) blockSize) [0..<k + 1]))"
proof -
  from assms(1) have "\<forall>j. 0 \<le> j \<and> j < 0 + k \<longrightarrow> full r j" by simp
  from read_loop_run [OF this]
  have "read_loop r 0 [] =
    read_loop (logged r (map (\<lambda>j. Read (4 + j) blockSize) [0..<k])) k (concat (map (block_bytes r) [0..<k]))"
    by simp
  also have "\<dots> = Some (concat (map (block_bytes r) [0..<k]) @ utf8_encode (chunk_data chunk), k + 1,
      logged (logged r (map (\<lambda>j. Read (4 + j) blockSize) [0..<k])) [Read (4 + k) blockSize])"
    by (rule read_loop_short) (simp_all add: assms)
  finally show ?thesis by (simp add: logged_logged)
qed

lemma read_loop_ends_fail:
  assumes "\<forall>j<k. full r j" "pages r (4 + k) = None"
  shows "read_loop r 0 [] =
    Some (concat (map (block_bytes r) [0..<k]), k,
          logged r (map (\<lambda>j. Read (4 + j) blockSize) [0..<k + 1]))"
proof -
  from assms(1) have "\<forall>j. 0 \<le> j \<and> j < 0 + k \<longrightarrow> full r j" by simp
  from read_loop_run [OF this]
  have "read_loop r 0 [] =
    read_loop (logged r (map (\<lambda>j. Read (4 + j) blockSize) [0..<k])) k (concat (map (block_bytes r) [0..<k]))"
    by simp
  also have "\<dots> = Some (concat (map (block_bytes r) [0..<k]), k,
      logged (logged r (map (\<lambda>j. Read (4 + j) blockSize) [0..<k])) [Read (4 + k) blockSize])"
    by (rule read_loop_fail) (simp add: assms)
  finally show ?thesis by (simp add: logged_logged)
qed

lemma not_full_iff:
  "\<not> full r k \<longleftrightarrow>
     pages r (4 + k) = None \<or>
     (\<exists>chunk. pages r (4 + k) = Some chunk \<and> length (chunk_data chunk) < blockSize)"
  by (simp add: full_def split: option.splits)

lemma read_loop_terminates:
  assumes "\<not> full r k"
  shows "\<exists>res. read_loop r 0 [] = Some res"
proof -
  define m where "m = (LEAST k. \<not> full r k)"
  have nf: "\<not> full r m" unfolding m_def using assms by (rule LeastI)
  have before: "\<forall>j<m. full r j"
    unfolding m_def using not_less_Least by blast
  from nf show ?thesis
    unfolding not_full_iff
    using read_loop_ends_fail [OF before] read_loop_ends_short [OF before] by blast
qed

lemma read_loop_never_ends:
  assumes "\<forall>k. full r k"
  shows "read_loop r i buffer = None"
proof (cases "read_loop r i buffer")
  case None
  then show ?thesis .
next
  case (Some res)
  from read_loop_Some_not_full [OF this] assms show ?thesis by blast
qed

lemma unat_byte_less: "unat (b :: byte) < 0x10000"
proof -
  have "unat b < 2 ^ LENGTH(8)" by (rule unsigned_less)
  then show ?thesis by simp
qed

lemma ucast_byte_eq_0: "(ucast (b :: byte) :: 16 word) = 0 \<Longrightarrow> b = 0"
proof -
  assume "(ucast b :: 16 word) = 0"
  then have "unat (ucast b :: 16 word) = 0" by simp
  then have "take_bit 16 (unat b) = 0" by (simp add: unsigned_ucast_eq)
  moreover have "unat b < 2 ^ 16" using unat_byte_less [of b] by simp
  ultimately have "unat b = 0" by (simp add: take_bit_nat_eq_self)
  then show "b = 0" by (simp add: unsigned_eq_0_iff)
qed

lemma utf8_decode_ascii:
  "\<forall>b \<in> set bs. b < 0x80 \<Longrightarrow> utf8_decode 0 0 0x80 0xBF bs = map unat bs"
proof (induction bs)
  case Nil
  show ?case by simp
next
  case (Cons b bs)
  then have "unat b < 0x80" by (simp add: word_less_nat_alt)
  with Cons show ?case by (simp add: Let_def)
qed

lemma toString_ascii: "\<forall>b \<in> set bs. b < 0x80 \<Longrightarrow> toString bs = map ucast bs"
proof -
  assume a: "\<forall>b \<in> set bs. b < 0x80"
  have "concat (map utf16_of_cp (map unat bs)) = map ucast bs"
  proof (induction bs)
    case Nil show ?case by simp
  next
    case (Cons b bs)
    have "unat b < 0x10000" by (rule unat_byte_less)
    with Cons show ?case by (simp add: utf16_of_cp_def)
  qed
  with a show ?thesis by (simp add: toString_def utf8_decode_ascii)
qed

lemma chunk_data_ascii:
  assumes "\<forall>b \<in> set bs. 0 < b \<and> b < 0x80"
  shows "chunk_data bs = map ucast bs"
proof -
  have "toString bs = map ucast bs" using assms by (simp add: toString_ascii)
  moreover have "filter (\<lambda>u. u \<noteq> 0) (map ucast bs) = (map ucast bs :: jsstring)"
  proof (rule filter_True, clarsimp)
    fix b :: byte assume "b \<in> set bs" "(ucast b :: 16 word) = 0"
    then have "b = 0" by (simp add: ucast_byte_eq_0)
    with assms \<open>b \<in> set bs\<close> show False by auto
  qed
  ultimately show ?thesis by (simp add: chunk_data_def strip_nulls_def)
qed

lemma byteLength_payload_of_size: "8 \<le> n \<Longrightarrow> byteLength (payload_of_size n) = n"
proof -
  assume n: "8 \<le> n"
  have "ascii (payload_of_size n)"
    by (simp add: ascii_def payload_of_size_def)
  then have "byteLength (payload_of_size n) = length (payload_of_size n)"
    by (rule byteLength_ascii)
  also have "\<dots> = n" using n by (simp add: payload_of_size_def)
  finally show ?thesis .
qed

lemma write_all_writable:
  assumes "byteLength (stringify p) \<le> 180" "\<forall>blk. writable r blk"
  shows "nfcWrite stringify (Some r) (Object p) =
    (WriteOk,
     Some (r\<lparr>pages := store_blocks (make_buffer (stringify p))
                        [0..<block_count (make_buffer (stringify p))] (pages r),
              log := log r @ map (\<lambda>j. Write (4 + j) (block_of (make_buffer (stringify p)) j))
                        [0..<block_count (make_buffer (stringify p))]\<rparr>))"
proof -
  from assms(2)
  have "\<forall>j. 0 \<le> j \<and> j < block_count (make_buffer (stringify p)) \<longrightarrow> writable r (4 + j)"
    by simp
  from write_loop_all_writable [OF this] assms(1) show ?thesis
    by (simp add: nfcWrite_small)
qed

section \<open>The decoder\<close>

text \<open>
  The text of a chunk has no more characters, the null ones apart, than the chunk
  has bytes that are not null: a chunk with fewer than 4 such bytes has a text of
  fewer than 4 characters.
\<close>

lemma units_simps:
  "units [] = 0"
  "units (c # cps) \<le> 2 + units cps"
  "c < 0x10000 \<Longrightarrow> units (c # cps) \<le> 1 + units cps"
  "units (0 # cps) = units cps"
  by (simp_all add: units_def strip_nulls_def utf16_of_cp_def)

lemma decode_units_bound:
  "needed = 0 \<or> 0 < lo \<Longrightarrow>
   units (utf8_decode cp needed lo hi bs) \<le>
     length (filter (\<lambda>b. b \<noteq> 0) bs) + (if needed = 0 then 0 else 1)"
proof (induction cp needed lo hi bs rule: utf8_decode.induct)
  case (1 cp needed lo hi)
  have "units [0xFFFD] \<le> 1" using units_simps(3) [of "0xFFFD" "[]"] by (simp add: units_simps(1))
  then show ?case by (simp add: units_simps(1))
next
  case (2 cp needed lo hi b bs)
  let ?n = "unat b"
  let ?nz = "length (filter (\<lambda>b. b \<noteq> 0) bs)"
  let ?rest = "utf8_decode 0 0 0x80 0xBF bs"
  have b0: "b = 0 \<longleftrightarrow> ?n = 0" by (simp add: unsigned_eq_0_iff)
  have n256: "?n < 0x10000" by (rule unat_byte_less)
  have fffd: "units (0xFFFD # cps) \<le> 1 + units cps" for cps
    by (rule units_simps(3)) simp
  show ?case
  proof (cases "needed = 0")
    case True
    note z = True
    consider (ascii) "?n \<le> 0x7F"
      | (two) "\<not> ?n \<le> 0x7F" "0xC2 \<le> ?n \<and> ?n \<le> 0xDF"
      | (three) "\<not> ?n \<le> 0x7F" "\<not> (0xC2 \<le> ?n \<and> ?n \<le> 0xDF)" "0xE0 \<le> ?n \<and> ?n \<le> 0xEF"
      | (four) "\<not> ?n \<le> 0x7F" "\<not> (0xC2 \<le> ?n \<and> ?n \<le> 0xDF)" "\<not> (0xE0 \<le> ?n \<and> ?n \<le> 0xEF)"
          "0xF0 \<le> ?n \<and> ?n \<le> 0xF4"
      | (bad) "\<not> ?n \<le> 0x7F" "\<not> (0xC2 \<le> ?n \<and> ?n \<le> 0xDF)" "\<not> (0xE0 \<le> ?n \<and> ?n \<le> 0xEF)"
          "\<not> (0xF0 \<le> ?n \<and> ?n \<le> 0xF4)"
      by blast
    then have "units (utf8_decode cp needed lo hi (b # bs)) \<le> (if b = 0 then 0 else 1) + ?nz"
    proof cases
      case ascii
      have eq: "utf8_decode cp needed lo hi (b # bs) = ?n # ?rest"
        by (subst utf8_decode.simps(2)) (simp only: Let_def z ascii if_True if_False simp_thms)
      have ih: "units ?rest \<le> ?nz"
        using "2.IH"(1) [OF refl z ascii] by simp
      show ?thesis
        unfolding eq
      proof (cases "b = 0")
        case True
        then show "units (?n # ?rest) \<le> (if b = 0 then 0 else 1) + ?nz"
          using ih by (simp add: units_simps(4))
      next
        case False
        then show "units (?n # ?rest) \<le> (if b = 0 then 0 else 1) + ?nz"
          using ih units_simps(3) [OF n256, of ?rest] by simp
      qed
    next
      case two
      have eq: "utf8_decode cp needed lo hi (b # bs) = utf8_decode (?n - 0xC0) 1 0x80 0xBF bs"
        by (subst utf8_decode.simps(2)) (simp only: Let_def z two if_True if_False simp_thms)
      have "units (utf8_decode (?n - 0xC0) 1 0x80 0xBF bs) \<le> ?nz + 1"
        using "2.IH"(2) [OF refl z two] by simp
      moreover have "b \<noteq> 0" using two b0 by auto
      ultimately show ?thesis unfolding eq by simp
    next
      case three
      have eq: "utf8_decode cp needed lo hi (b # bs) =
          utf8_decode (?n - 0xE0) 2 (if ?n = 0xE0 then 0xA0 else 0x80)
            (if ?n = 0xED then 0x9F else 0xBF) bs"
        by (subst utf8_decode.simps(2)) (simp only: Let_def z three if_True if_False simp_thms)
      have "units (utf8_decode (?n - 0xE0) 2 (if ?n = 0xE0 then 0xA0 else 0x80)
          (if ?n = 0xED then 0x9F else 0xBF) bs) \<le> ?nz + 1"
        using "2.IH"(3) [OF refl z three] by simp
      moreover have "b \<noteq> 0" using three b0 by auto
      ultimately show ?thesis unfolding eq by simp
    next
      case four
      have eq: "utf8_decode cp needed lo hi (b # bs) =
          utf8_decode (?n - 0xF0) 3 (if ?n = 0xF0 then 0x90 else 0x80)
            (if ?n = 0xF4 then 0x8F else 0xBF) bs"
        by (subst utf8_decode.simps(2)) (simp only: Let_def z four if_True if_False simp_thms)
      have "units (utf8_decode (?n - 0xF0) 3 (if ?n = 0xF0 then 0x90 else 0x80)
          (if ?n = 0xF4 then 0x8F else 0xBF) bs) \<le> ?nz + 1"
        using "2.IH"(4) [OF refl z four] by simp
      moreover have "b \<noteq> 0" using four b0 by auto
      ultimately show ?thesis unfolding eq by simp
    next
      case bad
      have eq: "utf8_decode cp needed lo hi (b # bs) = 0xFFFD # ?rest"
        by (subst utf8_decode.simps(2)) (simp only: Let_def z bad if_True if_False simp_thms)
      have "units ?rest \<le> ?nz"
        using "2.IH"(5) [OF refl z bad] by simp
      moreover have "b \<noteq> 0" using bad b0 by auto
      ultimately show ?thesis unfolding eq using fffd [of ?rest] by simp
    qed
    then show ?thesis using z by (cases "b = 0") (simp_all del: utf8_decode.simps)
  next
    case False
    note nzd = False
    with "2.prems" have lo: "0 < lo" by simp
    have "units (utf8_decode cp needed lo hi (b # bs)) \<le>
        length (filter (\<lambda>b. b \<noteq> 0) (b # bs)) + 1"
    proof (cases "?n < lo \<or> hi < ?n")
      case True
      have eq: "utf8_decode cp needed lo hi (b # bs) = 0xFFFD # utf8_decode 0 0 0x80 0xBF (b # bs)"
        by (subst utf8_decode.simps(2)) (simp only: Let_def nzd True if_True if_False simp_thms)
      have "units (utf8_decode 0 0 0x80 0xBF (b # bs)) \<le> length (filter (\<lambda>b. b \<noteq> 0) (b # bs))"
        using "2.IH"(6) [OF refl nzd True] by (simp del: utf8_decode.simps)
      then show ?thesis
        unfolding eq using fffd [of "utf8_decode 0 0 0x80 0xBF (b # bs)"]
        by (simp del: utf8_decode.simps)
    next
      case inr: False
      then have bn: "b \<noteq> 0" using lo b0 by auto
      show ?thesis
      proof (cases "needed = 1")
        case True
        have eq: "utf8_decode cp needed lo hi (b # bs) = (cp * 64 + (?n - 0x80)) # ?rest"
          by (subst utf8_decode.simps(2)) (simp add: Let_def nzd inr True del: utf8_decode.simps)
        have "units ?rest \<le> ?nz"
          using "2.IH"(7) [OF refl nzd inr True] by simp
        then show ?thesis
          unfolding eq using bn units_simps(2) [of "cp * 64 + (?n - 0x80)" ?rest] by simp
      next
        case False
        have eq: "utf8_decode cp needed lo hi (b # bs) =
            utf8_decode (cp * 64 + (?n - 0x80)) (needed - 1) 0x80 0xBF bs"
          by (subst utf8_decode.simps(2)) (use nzd inr False in \<open>simp add: Let_def del: utf8_decode.simps\<close>)
        have "units (utf8_decode (cp * 64 + (?n - 0x80)) (needed - 1) 0x80 0xBF bs) \<le> ?nz + 1"
          using "2.IH"(8) [OF refl nzd inr False] by (simp split: if_splits)
        then show ?thesis unfolding eq using bn by simp
      qed
    qed
    then show ?thesis using nzd by (simp del: utf8_decode.simps)
  qed
qed

lemma chunk_data_length_le: "length (chunk_data chunk) \<le> length (filter (\<lambda>b. b \<noteq> 0) chunk)"
  using decode_units_bound [of 0 "0x80" 0 "0xBF" chunk]
  by (simp add: units_def chunk_data_def toString_def)

section \<open>When the read loop ends\<close>

text \<open>
  The read loop as it is written ends if and only if, for some block from the
  base index on, the read fails or the text of the block, its null characters
  removed, has fewer than 4 characters; on a reader where every read succeeds
  and returns 4 ASCII bytes, none of them null, it never ends.
\<close>

theorem read_loop_terminates_iff:
  "((\<exists>res. read_loop r 0 [] = Some res) \<longleftrightarrow>
      (\<exists>k. pages r (4 + k) = None \<or>
           (\<exists>chunk. pages r (4 + k) = Some chunk \<and> length (chunk_data chunk) < blockSize))) \<and>
   ((\<forall>k. \<exists>chunk. pages r (4 + k) = Some chunk \<and> length chunk = blockSize \<and>
                  (\<forall>b \<in> set chunk. 0 < b \<and> b < 0x80)) \<longrightarrow>
      read_loop r 0 [] = None)"
proof (intro conjI impI)
  show "(\<exists>res. read_loop r 0 [] = Some res) \<longleftrightarrow>
      (\<exists>k. pages r (4 + k) = None \<or>
           (\<exists>chunk. pages r (4 + k) = Some chunk \<and> length (chunk_data chunk) < blockSize))"
    unfolding not_full_iff [symmetric]
    using read_loop_terminates read_loop_Some_not_full by blast
next
  assume a: "\<forall>k. \<exists>chunk. pages r (4 + k) = Some chunk \<and> length chunk = blockSize \<and>
                  (\<forall>b \<in> set chunk. 0 < b \<and> b < 0x80)"
  have "\<forall>k. full r k"
  proof
    fix k
    from a obtain chunk where c: "pages r (4 + k) = Some chunk" "length chunk = blockSize"
      "\<forall>b \<in> set chunk. 0 < b \<and> b < 0x80" by blast
    then show "full r k" by (simp add: full_def chunk_data_ascii)
  qed
  then show "read_loop r 0 [] = None" by (rule read_loop_never_ends)
qed

theorem read_loop_terminates_iff_witness:
  "read_loop (reader_of [(4, [0x7B, 0x7D, 0x7B, 0x7D])]) 0 [] \<noteq> None \<and>
   read_loop (uniform_reader [0x61, 0x62, 0x63, 0x64]) 0 [] = None"
proof -
  have "\<exists>k. pages (reader_of [(4, [0x7B, 0x7D, 0x7B, 0x7D])]) (4 + k) = None \<or>
     (\<exists>chunk. pages (reader_of [(4, [0x7B, 0x7D, 0x7B, 0x7D])]) (4 + k) = Some chunk \<and>
        length (chunk_data chunk) < blockSize)"
    by (rule exI [of _ 1]) (simp add: reader_of_def)
  with read_loop_terminates_iff [of "reader_of [(4, [0x7B, 0x7D, 0x7B, 0x7D])]"]
  have 1: "read_loop (reader_of [(4, [0x7B, 0x7D, 0x7B, 0x7D])]) 0 [] \<noteq> None"
    by auto
  have "\<forall>k. \<exists>chunk. pages (uniform_reader [0x61, 0x62, 0x63, 0x64]) (4 + k) = Some chunk \<and>
      length chunk = blockSize \<and> (\<forall>b \<in> set chunk. 0 < b \<and> b < 0x80)"
    by (simp add: uniform_reader_def blockSize_def)
  with read_loop_terminates_iff [of "uniform_reader [0x61, 0x62, 0x63, 0x64]"]
  have 2: "read_loop (uniform_reader [0x61, 0x62, 0x63, 0x64]) 0 [] = None"
    by blast
  from 1 2 show ?thesis by simp
qed

text \<open>
  A read that fails, or a block with fewer than 4 bytes that are not null, ends
  the loop.
\<close>

lemma read_loop_ends_on_short_block:
  assumes "pages r (4 + k) = None \<or>
    (\<exists>chunk. pages r (4 + k) = Some chunk \<and>
       length (filter (\<lambda>b. b \<noteq> 0) chunk) < blockSize)"
  shows "\<exists>res. read_loop r 0 [] = Some res"
proof -
  have "\<not> full r k"
  proof (cases "pages r (4 + k)")
    case None
    then show ?thesis by (simp add: full_def)
  next
    case (Some chunk)
    with assms have "length (filter (\<lambda>b. b \<noteq> 0) chunk) < blockSize" by simp
    with chunk_data_length_le [of chunk] have "length (chunk_data chunk) < blockSize" by simp
    with Some show ?thesis by (simp add: full_def)
  qed
  then show ?thesis by (rule read_loop_terminates)
qed

section \<open>The read handler\<close>

lemma upt_small: "[0..<1] = [0]" "[0..<2] = [0, 1]" "[0..<3] = [0, 1, 2]"
  by (simp_all add: numeral_2_eq_2 numeral_3_eq_3)

lemma nfcRead_result:
  assumes "card r \<noteq> None" "read_loop r 0 [] = Some (buffer, i, r')"
  shows "nfcRead parse (Some r) =
    Some (case parse_data parse (reconstruct buffer) of
            Inl e \<Rightarrow> ReadFailed | Inr data \<Rightarrow> Response 200 (Data data), Some r')"
  using assms by (cases "parse_data parse (reconstruct buffer)") (auto simp: nfcRead_def)

section \<open>Payloads of ASCII characters\<close>

lemma unat_ucast_byte: "unat (ucast (u :: 16 word) :: byte) = unat u mod 256"
  by (simp add: unsigned_ucast_eq take_bit_eq_mod)

lemma unat_ucast_unit: "unat (ucast (b :: byte) :: 16 word) = unat b"
proof -
  have "unat b < 2 ^ 16" using unat_byte_less [of b] by simp
  then show ?thesis by (simp add: unsigned_ucast_eq take_bit_nat_eq_self)
qed

lemma ascii_unit_byte:
  assumes "u < (0x80 :: 16 word)"
  shows "(ucast u :: byte) < 0x80" "(ucast (ucast u :: byte) :: 16 word) = u"
proof -
  from assms have n: "unat u < 0x80" by (simp add: word_less_nat_alt)
  then have m: "unat (ucast u :: byte) = unat u" by (simp add: unat_ucast_byte)
  from n m show "(ucast u :: byte) < 0x80" by (simp add: word_less_nat_alt)
  from m have "unat (ucast (ucast u :: byte) :: 16 word) = unat u"
    by (simp add: unat_ucast_unit)
  then show "(ucast (ucast u :: byte) :: 16 word) = u"
    by (simp add: word_eq_iff_unsigned [where ?'a = nat])
qed

lemma length_fit: "length (fit n cs) \<le> n"
  by (induction n cs rule: fit.induct) auto

lemma length_make_buffer: "length (make_buffer s) = padded_length (length s)"
  using length_fit [of "padded_length (length s)" "utf8_chars s"]
  by (simp add: make_buffer_def buffer_write_def Let_def)

lemma padded_length_bounds:
  "padded_length n mod blockSize = 0" "n \<le> padded_length n" "padded_length n < n + blockSize"
  by (simp_all add: padded_length_def blockSize_def)

text \<open>
  The length of the buffer is a multiple of the block size and no less than the
  length of the string in code units, for every string.
\<close>

theorem buffer_length_multiple_of_block_size:
  "length (make_buffer s) mod blockSize = 0 \<and> length s \<le> length (make_buffer s)"
  by (simp add: length_make_buffer padded_length_bounds)

lemma fit_singletons: "fit n (map (\<lambda>x. [f x]) xs) = map f (take n xs)"
proof (induction xs arbitrary: n)
  case Nil
  show ?case by simp
next
  case (Cons x xs)
  show ?case by (cases n) (simp_all add: Cons.IH)
qed

lemma make_buffer_ascii:
  assumes "ascii s"
  shows "make_buffer s = map ucast s @ replicate (padded_length (length s) - length s) 0"
proof -
  have "fit (padded_length (length s)) (utf8_chars s) = map ucast s"
    using padded_length_bounds(2) [of "length s"]
    by (simp add: utf8_chars_ascii [OF assms] fit_singletons)
  then show ?thesis
    by (simp add: make_buffer_def buffer_write_def Let_def)
qed

text \<open>
  For a string of ASCII characters the buffer is no shorter than the
  serialization, begins with its bytes and is null after them.
\<close>

theorem ascii_buffer_holds_serialization:
  assumes "ascii s"
  shows "byteLength s \<le> length (make_buffer s) \<and>
         take (byteLength s) (make_buffer s) = utf8_encode s \<and>
         set (drop (byteLength s) (make_buffer s)) \<subseteq> {0}"
  by (auto simp: byteLength_ascii [OF assms] utf8_encode_ascii [OF assms] make_buffer_ascii [OF assms])

lemma chunk_data_ascii_bytes:
  assumes "\<forall>b \<in> set bs. b < 0x80"
  shows "chunk_data bs = filter (\<lambda>u. u \<noteq> 0) (map ucast bs)"
  by (simp add: chunk_data_def strip_nulls_def toString_ascii [OF assms])

lemma ascii_ucast_ucast:
  assumes "ascii s"
  shows "map ucast (map ucast s :: byte list) = s"
proof -
  have "\<forall>u \<in> set s. u < 0x80 \<Longrightarrow> map (\<lambda>u. ucast (ucast u :: byte) :: 16 word) s = s"
    by (induction s) (simp_all add: ascii_unit_byte)
  with assms show ?thesis by (simp add: o_def ascii_def)
qed

lemma ascii_ucast_comp:
  "ascii s \<Longrightarrow> map ((ucast :: byte \<Rightarrow> 16 word) \<circ> ucast) s = s"
  using ascii_ucast_ucast [of s] by simp

lemma ascii_bytes_less: "ascii s \<Longrightarrow> \<forall>b \<in> set (map ucast s :: byte list). b < 0x80"
  by (auto simp: ascii_def ascii_unit_byte)

lemma make_buffer_ascii_less:
  assumes "ascii s"
  shows "\<forall>b \<in> set (make_buffer s). b < 0x80"
  using ascii_bytes_less [OF assms] by (auto simp: make_buffer_ascii [OF assms])

lemma make_buffer_ascii_text:
  assumes "ascii s"
  shows "map ucast (make_buffer s) = s @ replicate (padded_length (length s) - length s) 0"
  by (simp add: make_buffer_ascii [OF assms] ascii_ucast_comp [OF assms])

lemma block_of_take_drop: "block_of B j = take 4 (drop (4 * j) B)"
  by (simp add: block_of_def slice_def blockSize_def mult.commute)

lemma filter_take_zeros:
  assumes "0 \<notin> set s" "4 * j \<le> length s"
  shows "filter (\<lambda>u. u \<noteq> 0) (take 4 (drop (4 * j) (s @ replicate k (0 :: 16 word)))) =
         take 4 (drop (4 * j) s)"
proof -
  have "0 \<notin> set (take 4 (drop (4 * j) s))"
    using assms(1) by (meson in_set_dropD in_set_takeD)
  then have "filter (\<lambda>u. u \<noteq> 0) (take 4 (drop (4 * j) s)) = take 4 (drop (4 * j) s)"
    by (intro filter_True) auto
  moreover have "filter (\<lambda>u. u \<noteq> 0) (take m (replicate k (0 :: 16 word))) = []" for m
    by (simp add: take_replicate)
  ultimately show ?thesis using assms(2) by simp
qed

lemma chunk_data_block:
  assumes "ascii s" "0 \<notin> set s" "4 * j \<le> length s"
  shows "chunk_data (block_of (make_buffer s) j) = take 4 (drop (4 * j) s)"
proof -
  have "\<forall>b \<in> set (block_of (make_buffer s) j). b < 0x80"
    using make_buffer_ascii_less [OF assms(1)]
    by (auto simp: block_of_take_drop dest!: in_set_takeD in_set_dropD)
  then have "chunk_data (block_of (make_buffer s) j) =
      filter (\<lambda>u. u \<noteq> 0) (map ucast (block_of (make_buffer s) j))"
    by (rule chunk_data_ascii_bytes)
  also have "map ucast (block_of (make_buffer s) j) =
      take 4 (drop (4 * j) (s @ replicate (padded_length (length s) - length s) 0))"
    by (simp only: block_of_take_drop take_map [symmetric] drop_map [symmetric]
        make_buffer_ascii_text [OF assms(1)])
  finally show ?thesis by (simp only: filter_take_zeros [OF assms(2,3)])
qed

lemma ascii_sub: "ascii s \<Longrightarrow> ascii (take n (drop m s))"
  by (auto simp: ascii_def dest!: in_set_takeD in_set_dropD)

lemma store_blocks_lookup:
  "store_blocks B [0..<m] pg (4 + j) = (if j < m then Some (block_of B j) else pg (4 + j))"
  by (induction m) (auto simp: store_blocks_def)

lemma concat_blocks:
  "concat (map (\<lambda>j. map ucast (take 4 (drop (4 * j) s)) :: byte list) [0..<k]) =
   map ucast (take (4 * k) s)"
proof (induction k)
  case 0
  show ?case by simp
next
  case (Suc k)
  have "take (4 * Suc k) s = take (4 * k) s @ take 4 (drop (4 * k) s)"
    by (simp add: take_add [symmetric] add.commute)
  with Suc show ?case by simp
qed

lemma block_count_make_buffer:
  "block_count (make_buffer s) = (length s + 3) div 4"
proof -
  have "padded_length (length s) = ((length s + 3) div 4) * 4"
    by (simp add: padded_length_def blockSize_def)
  then show ?thesis
    by (simp add: block_count_def length_make_buffer blockSize_def)
qed

lemma reconstruct_framed:
  assumes "ascii s" "0 \<notin> set s" "startsWith s 0x7B" "endsWith s 0x7D"
  shows "reconstruct (map ucast s) = s"
proof -
  have t: "toString (map ucast s :: byte list) = s"
    using toString_ascii [OF ascii_bytes_less [OF assms(1)]] ascii_ucast_ucast [OF assms(1)]
    by simp
  have n: "strip_nulls s = s"
    unfolding strip_nulls_def using assms(2) by (intro filter_True) auto
  have nw: "\<not> is_white_space 0x7B" "\<not> is_white_space 0x7D"
    by (simp_all add: is_white_space_def)
  from assms(3) obtain t where s: "s = 0x7B # t"
    by (cases s) (simp_all add: startsWith_def)
  from assms(4) obtain t' where r: "rev s = 0x7D # t'"
    by (cases "rev s") (simp_all add: endsWith_def)
  have "dropWhile is_white_space s = s" using s nw by simp
  moreover have "dropWhile is_white_space (rev s) = rev s" using r nw by simp
  ultimately have "trim s = s" by (simp add: trim_def)
  with t n show ?thesis by (simp add: reconstruct_def)
qed

lemma written_blocks_read_back:
  assumes a: "ascii s" and nz: "0 \<notin> set s"
    and pg: "\<forall>j. pages r' (4 + j) =
      (if j < block_count (make_buffer s) then Some (block_of (make_buffer s) j) else old (4 + j))"
    and blank: "length s mod 4 = 0 \<longrightarrow>
      (case old (4 + length s div 4) of None \<Rightarrow> True | Some chunk \<Rightarrow> chunk_data chunk = [])"
  shows "\<exists>i r''. read_loop r' 0 [] = Some (map ucast s, i, r'')"
proof -
  define n where "n = length s"
  define q where "q = n div 4"
  have m: "block_count (make_buffer s) = (n + 3) div 4"
    by (simp add: block_count_make_buffer n_def)
  have data: "chunk_data (block_of (make_buffer s) j) = take 4 (drop (4 * j) s)" if "4 * j \<le> n" for j
    using that by (simp add: chunk_data_block [OF a nz] n_def)
  have early: "pages r' (4 + j) = Some (block_of (make_buffer s) j) \<and> 4 * j \<le> n \<and> 4 * j + 4 \<le> n"
    if "j < q" for j
  proof -
    from that have "4 * j + 4 \<le> n" unfolding q_def by arith
    moreover from this have "j < (n + 3) div 4" by arith
    ultimately show ?thesis using pg by (simp add: m)
  qed
  have fulls: "\<forall>j<q. full r' j"
  proof (intro allI impI)
    fix j assume "j < q"
    from early [OF this] show "full r' j"
      by (auto simp: full_def data blockSize_def n_def)
  qed
  have bytes: "block_bytes r' j = map ucast (take 4 (drop (4 * j) s))" if "j < q" for j
    using early [OF that] by (simp add: block_bytes_def data utf8_encode_ascii [OF ascii_sub [OF a]])
  have "map (block_bytes r') [0..<q] = map (\<lambda>j. map ucast (take 4 (drop (4 * j) s))) [0..<q]"
    by (rule map_cong) (simp_all add: bytes)
  then have acc: "concat (map (block_bytes r') [0..<q]) = map ucast (take (4 * q) s)"
    by (simp only: concat_blocks)
  show ?thesis
  proof (cases "n mod 4 = 0")
    case False
    then have lt: "q < (n + 3) div 4" unfolding q_def by arith
    have le: "4 * q \<le> n" unfolding q_def by arith
    have short: "n - 4 * q < 4" unfolding q_def by arith
    from lt have p: "pages r' (4 + q) = Some (block_of (make_buffer s) q)"
      using pg by (simp add: m)
    have d: "chunk_data (block_of (make_buffer s) q) = drop (4 * q) s"
      using short by (simp add: data [OF le] n_def)
    have s: "length (chunk_data (block_of (make_buffer s) q)) < blockSize"
      using short by (simp add: d blockSize_def n_def)
    have e: "utf8_encode (drop (4 * q) s) = map ucast (drop (4 * q) s)"
      using ascii_sub [OF a, of "length s" "4 * q"] by (simp add: utf8_encode_ascii)
    have "map ucast (take (4 * q) s) @ map ucast (drop (4 * q) s) = (map ucast s :: byte list)"
      by (simp only: map_append [symmetric] append_take_drop_id)
    with read_loop_ends_short [OF fulls p s] show ?thesis
      by (simp add: acc d e)
  next
    case True
    then have n4: "4 * q = n" unfolding q_def by arith
    from True have mq: "(n + 3) div 4 = q" unfolding q_def by arith
    have p: "pages r' (4 + q) = old (4 + q)"
      using pg by (simp add: m mq)
    have all: "take (4 * q) s = s" by (simp add: n4 n_def)
    show ?thesis
    proof (cases "old (4 + q)")
      case None
      with p have "pages r' (4 + q) = None" by simp
      from read_loop_ends_fail [OF fulls this] show ?thesis
        by (simp add: acc all)
    next
      case (Some chunk)
      with blank True have e: "chunk_data chunk = []"
        by (simp add: n_def q_def)
      from Some p have p': "pages r' (4 + q) = Some chunk" by simp
      have s: "length (chunk_data chunk) < blockSize" by (simp add: e blockSize_def)
      have "utf8_encode [] = []" by (simp add: utf8_encode_def)
      with read_loop_ends_short [OF fulls p' s] show ?thesis
        by (simp add: acc all e)
    qed
  qed
qed

section \<open>The claims\<close>

text \<open>
  The unfolding rules that evaluate the string functions on a given input.
\<close>

lemmas enc_defs = byteLength_def utf8_encode_def utf8_of_cp_def is_high_surrogate_def
  is_low_surrogate_def make_buffer_def padded_length_def blockSize_def buffer_write_def Let_def
  replacement_bytes_def replicate_numeral

lemmas dec_defs = chunk_data_def strip_nulls_def toString_def utf16_of_cp_def reconstruct_def
  trim_def is_white_space_def startsWith_def endsWith_def

lemma empty_object_buffer:
  "byteLength [0x7B, 0x7D] = 2" "make_buffer [0x7B, 0x7D] = [0x7B, 0x7D, 0, 0]"
  by (simp_all add: enc_defs)

lemma block_count_numeral:
  "block_count [a, b, c, d] = 1" "block_count [a, b, c, d, e, f, g, h] = 2"
  "block_count [a, b, c, d, e, f, g, h, i, j, k, l] = 3"
  by (simp_all add: block_count_def blockSize_def)

lemma two_e_acute_buffer:
  "byteLength [0x7B, 0x22, 0xE9, 0xE9, 0x22, 0x3A, 0x31, 0x7D] = 10"
  "utf8_encode [0x7B, 0x22, 0xE9, 0xE9, 0x22, 0x3A, 0x31, 0x7D] =
     [0x7B, 0x22, 0xC3, 0xA9, 0xC3, 0xA9, 0x22, 0x3A, 0x31, 0x7D]"
  "make_buffer [0x7B, 0x22, 0xE9, 0xE9, 0x22, 0x3A, 0x31, 0x7D] =
     [0x7B, 0x22, 0xC3, 0xA9, 0xC3, 0xA9, 0x22, 0x3A]"
  by (simp_all add: enc_defs)

lemma blocks_of_8:
  "block_of [a, b, c, d, e, f, g, h] 0 = [a, b, c, d]"
  "block_of [a, b, c, d, e, f, g, h] (Suc 0) = [e, f, g, h]"
  by (simp_all add: block_of_def slice_def blockSize_def)

lemma blocks_of_12:
  "block_of [a, b, c, d, e, f, g, h, i, j, k, l] 0 = [a, b, c, d]"
  "block_of [a, b, c, d, e, f, g, h, i, j, k, l] (Suc 0) = [e, f, g, h]"
  "block_of [a, b, c, d, e, f, g, h, i, j, k, l] 2 = [i, j, k, l]"
  by (simp_all add: block_of_def slice_def blockSize_def)

lemma e_acute_buffer:
  "byteLength [0x7B, 0x22, 0x61, 0x22, 0x3A, 0x22, 0xE9, 0x22, 0x7D] = 10"
  "make_buffer [0x7B, 0x22, 0x61, 0x22, 0x3A, 0x22, 0xE9, 0x22, 0x7D] =
     [0x7B, 0x22, 0x61, 0x22, 0x3A, 0x22, 0xC3, 0xA9, 0x22, 0x7D, 0, 0]"
  by (simp_all add: enc_defs)

lemma e_acute_chunks:
  "chunk_data [0x7B, 0x22, 0x61, 0x22] = [0x7B, 0x22, 0x61, 0x22]"
  "chunk_data [0x3A, 0x22, 0xC3, 0xA9] = [0x3A, 0x22, 0xE9]"
  "utf8_encode [0x7B, 0x22, 0x61, 0x22] = [0x7B, 0x22, 0x61, 0x22]"
  "utf8_encode [0x3A, 0x22, 0xE9] = [0x3A, 0x22, 0xC3, 0xA9]"
  "reconstruct [0x7B, 0x22, 0x61, 0x22, 0x3A, 0x22, 0xC3, 0xA9] = [0x7B, 0x22, 0x61, 0x22, 0x3A, 0x22, 0xE9]"
  by (simp_all add: dec_defs enc_defs)

lemma upt_4: "[0..<4] = [0, 1, 2, 3]"
  by (simp add: numeral_eq_Suc)

lemma payload_buffers:
  "byteLength long_payload = 16" "byteLength short_payload = 8"
  "make_buffer long_payload = [0x7B, 0x22, 0x61, 0x22, 0x3A, 0x22, 0x78, 0x78, 0x78, 0x78, 0x78, 0x78, 0x78, 0x78, 0x22, 0x7D]"
  "make_buffer short_payload = [0x7B, 0x22, 0x61, 0x22, 0x3A, 0x31, 0x32, 0x7D]"
  by (simp_all add: long_payload_def short_payload_def enc_defs)

lemma blocks_of_16:
  "block_of [a, b, c, d, e, f, g, h, i, j, k, l, m, n, p, q] 2 = [i, j, k, l]"
  "block_of [a, b, c, d, e, f, g, h, i, j, k, l, m, n, p, q] 3 = [m, n, p, q]"
  by (simp_all add: block_of_def slice_def blockSize_def)

lemma block_count_16: "block_count [a, b, c, d, e, f, g, h, i, j, k, l, m, n, p, q] = 4"
  by (simp add: block_count_def blockSize_def)

lemma stale_chunks:
  "chunk_data [0x7B, 0x22, 0x61, 0x22] = [0x7B, 0x22, 0x61, 0x22]"
  "chunk_data [0x3A, 0x31, 0x32, 0x7D] = [0x3A, 0x31, 0x32, 0x7D]"
  "chunk_data [0x78, 0x78, 0x78, 0x78] = [0x78, 0x78, 0x78, 0x78]"
  "chunk_data [0x78, 0x78, 0x22, 0x7D] = [0x78, 0x78, 0x22, 0x7D]"
  "utf8_encode [0x7B, 0x22, 0x61, 0x22] = [0x7B, 0x22, 0x61, 0x22]"
  "utf8_encode [0x3A, 0x31, 0x32, 0x7D] = [0x3A, 0x31, 0x32, 0x7D]"
  "utf8_encode [0x78, 0x78, 0x78, 0x78] = [0x78, 0x78, 0x78, 0x78]"
  "utf8_encode [0x78, 0x78, 0x22, 0x7D] = [0x78, 0x78, 0x22, 0x7D]"
  "reconstruct [0x7B, 0x22, 0x61, 0x22, 0x3A, 0x31, 0x32, 0x7D, 0x78, 0x78, 0x78, 0x78, 0x78, 0x78, 0x22, 0x7D] = stale_read"
  by (simp_all add: dec_defs enc_defs stale_read_def)

subsection \<open>C1: the round trip\<close>

text \<open>
  C1, as amended. A payload whose serialization is ASCII, without null
  characters, within braces and of 1 to 180 bytes, is written and read back as
  it was: on a reader with a card where every write succeeds, the write answers
  with success, and the read that follows answers with what \<open>JSON.parse\<close>
  makes of the very string that was written: the payload itself, where
  \<open>JSON.parse\<close> inverts \<open>JSON.stringify\<close> on it. The format has no length and no
  end mark, so when the length of the string is a multiple of 4, and no block
  is short, this holds where the block after the last one fails to read or holds
  no text. The instances are the payload with the key \<open>a\<close> and the value 1, of
  7 bytes, and the one with the value 12, of 8 bytes, before a block of null
  bytes.
\<close>

theorem ascii_round_trip:
  assumes "stringify p = s"
    and "ascii s" and "0 \<notin> set s"
    and "startsWith s 0x7B" and "endsWith s 0x7D"
    and "byteLength s \<le> 180"
    and "card r \<noteq> None" and "\<forall>blk. writable r blk"
    and "length s mod 4 = 0 \<longrightarrow>
      (case pages r (4 + length s div 4) of None \<Rightarrow> True | Some chunk \<Rightarrow> chunk_data chunk = [])"
  shows "\<exists>r' r''.
           nfcWrite stringify (Some r) (Object p) = (WriteOk :: 'q response, Some r') \<and>
           nfcRead parse (Some r') =
             Some (case parse s of None \<Rightarrow> ReadFailed | Some data \<Rightarrow> Response 200 (Data data),
                   Some r'') \<and>
           (parse s = Some p \<longrightarrow>
              nfcRead parse (Some r') = Some (Response 200 (Data p), Some r''))"
proof -
  let ?B = "make_buffer s"
  let ?r' = "r\<lparr>pages := store_blocks ?B [0..<block_count ?B] (pages r),
              log := log r @ map (\<lambda>j. Write (4 + j) (block_of ?B j)) [0..<block_count ?B]\<rparr>"
  have small: "byteLength (stringify p) \<le> 180" using assms(1,6) by simp
  have w: "nfcWrite stringify (Some r) (Object p) = (WriteOk :: 'q response, Some ?r')"
    using write_all_writable [of stringify p r, OF small assms(8)] by (simp add: assms(1))
  have pg: "\<forall>j. pages ?r' (4 + j) =
      (if j < block_count ?B then Some (block_of ?B j) else pages r (4 + j))"
    by (simp add: store_blocks_lookup)
  from written_blocks_read_back [OF assms(2,3) pg assms(9)]
  obtain i r'' where loop: "read_loop ?r' 0 [] = Some (map ucast s, i, r'')" by blast
  have c: "card ?r' \<noteq> None" using assms(7) by simp
  have pd: "parse_data parse (reconstruct (map ucast s)) =
      (case parse s of None \<Rightarrow> Inl SyntaxError | Some data \<Rightarrow> Inr data)"
    using assms(4,5) by (simp add: reconstruct_framed [OF assms(2-5)] parse_data_def)
  have rd: "nfcRead parse (Some ?r') =
      Some (case parse s of None \<Rightarrow> ReadFailed | Some data \<Rightarrow> Response 200 (Data data), Some r'')"
    using nfcRead_result [OF c loop, of parse] by (simp add: pd split: option.splits)
  then have "parse s = Some p \<longrightarrow>
      nfcRead parse (Some ?r') = Some (Response 200 (Data p), Some r'')"
    by simp
  with w rd show ?thesis by blast
qed

theorem ascii_round_trip_witness:
  "(\<exists>r' r''.
     nfcWrite id (Some (reader_of [])) (Object [0x7B, 0x22, 0x61, 0x22, 0x3A, 0x31, 0x7D]) =
       (WriteOk :: unit response, Some r') \<and>
     nfcRead Some (Some r') =
       Some (Response 200 (Data [0x7B, 0x22, 0x61, 0x22, 0x3A, 0x31, 0x7D]), Some r'')) \<and>
   (\<exists>r' r''.
     nfcWrite id (Some (reader_of [(6, [0, 0, 0, 0])]))
         (Object [0x7B, 0x22, 0x61, 0x22, 0x3A, 0x31, 0x32, 0x7D]) =
       (WriteOk :: unit response, Some r') \<and>
     nfcRead Some (Some r') =
       Some (Response 200 (Data [0x7B, 0x22, 0x61, 0x22, 0x3A, 0x31, 0x32, 0x7D]), Some r''))"
proof -
  let ?s = "[0x7B, 0x22, 0x61, 0x22, 0x3A, 0x31, 0x7D] :: jsstring"
  let ?t = "[0x7B, 0x22, 0x61, 0x22, 0x3A, 0x31, 0x32, 0x7D] :: jsstring"
  let ?r = "reader_of [(6, [0, 0, 0, 0])]"
  have h: "id ?s = ?s" "ascii ?s" "0 \<notin> set ?s" "startsWith ?s 0x7B" "endsWith ?s 0x7D"
    "card (reader_of []) \<noteq> None" "\<forall>blk. writable (reader_of []) blk"
    by (simp_all add: ascii_def startsWith_def endsWith_def reader_of_def)
  have l: "byteLength ?s \<le> 180" by (simp add: byteLength_ascii h(2))
  have b: "length ?s mod 4 = 0 \<longrightarrow>
      (case pages (reader_of []) (4 + length ?s div 4) of None \<Rightarrow> True
       | Some chunk \<Rightarrow> chunk_data chunk = [])"
    by simp
  have g: "id ?t = ?t" "ascii ?t" "0 \<notin> set ?t" "startsWith ?t 0x7B" "endsWith ?t 0x7D"
    "card ?r \<noteq> None" "\<forall>blk. writable ?r blk"
    by (simp_all add: ascii_def startsWith_def endsWith_def reader_of_def)
  have m: "byteLength ?t \<le> 180" by (simp add: byteLength_ascii g(2))
  have z: "chunk_data [0, 0, 0, 0] = []" by (simp add: dec_defs)
  have c: "length ?t mod 4 = 0 \<longrightarrow>
      (case pages ?r (4 + length ?t div 4) of None \<Rightarrow> True
       | Some chunk \<Rightarrow> chunk_data chunk = [])"
    by (simp add: reader_of_def z)
  from ascii_round_trip [of id ?s ?s, OF h(1-5) l h(6,7) b, of Some, where ?'q = unit]
    ascii_round_trip [of id ?t ?t, OF g(1-5) m g(6,7) c, of Some, where ?'q = unit]
  show ?thesis by simp
qed

text \<open>
  C1 as stated speaks of every payload and of every tag. A payload of 8 bytes
  written over one of 16 bytes leaves the last two blocks of the longer one on
  the tag; the read goes on through them and reconstructs a string that is not
  the one that was written. It is shown with a parser that returns its input,
  and with one that accepts the written string only, where the read fails.
\<close>

theorem stale_blocks_counterexample:
  "fst (nfcWrite id (Some (reader_of [])) (Object long_payload)) = (WriteOk :: unit response) \<and>
   fst (nfcWrite id (snd (nfcWrite id (Some (reader_of [])) (Object long_payload)
                          :: unit response \<times> unit reader option))
          (Object short_payload)) = (WriteOk :: unit response) \<and>
   map_option fst
     (nfcRead Some
        (snd (nfcWrite id (snd (nfcWrite id (Some (reader_of [])) (Object long_payload)
                                :: unit response \<times> unit reader option))
                (Object short_payload) :: unit response \<times> unit reader option))) =
     Some (Response 200 (Data stale_read)) \<and>
   map_option fst
     (nfcRead (parse_only short_payload)
        (snd (nfcWrite id (snd (nfcWrite id (Some (reader_of [])) (Object long_payload)
                                :: unit response \<times> unit reader option))
                (Object short_payload) :: unit response \<times> unit reader option))) =
     Some ReadFailed \<and>
   stale_read \<noteq> short_payload"
proof -
  let ?B1 = "make_buffer long_payload"
  let ?B2 = "make_buffer short_payload"
  let ?r0 = "reader_of []"
  let ?r1 = "?r0\<lparr>pages := store_blocks ?B1 [0..<block_count ?B1] (pages ?r0),
      log := log ?r0 @ map (\<lambda>j. Write (4 + j) (block_of ?B1 j)) [0..<block_count ?B1]\<rparr>"
  let ?r2 = "?r1\<lparr>pages := store_blocks ?B2 [0..<block_count ?B2] (pages ?r1),
      log := log ?r1 @ map (\<lambda>j. Write (4 + j) (block_of ?B2 j)) [0..<block_count ?B2]\<rparr>"
  have w0: "\<forall>blk. writable ?r0 blk" and w1: "\<forall>blk. writable ?r1 blk"
    by (simp_all add: reader_of_def)
  have s1: "byteLength (id long_payload) \<le> 180" and s2: "byteLength (id short_payload) \<le> 180"
    by (simp_all add: payload_buffers)
  have n1: "nfcWrite id (Some ?r0) (Object long_payload) = (WriteOk :: unit response, Some ?r1)"
    using write_all_writable [of id long_payload ?r0, OF s1 w0] by simp
  have n2: "nfcWrite id (Some ?r1) (Object short_payload) = (WriteOk :: unit response, Some ?r2)"
    using write_all_writable [of id short_payload ?r1, OF s2 w1] by simp
  have pg: "pages ?r2 (4 + j) =
      (if j < 2 then Some (block_of ?B2 j)
       else if j < 4 then Some (block_of ?B1 j) else None)" for j
    by (simp add: store_blocks_lookup payload_buffers block_count_numeral block_count_16
        reader_of_def)
  have p: "pages ?r2 (4 + 0) = Some [0x7B, 0x22, 0x61, 0x22]"
    "pages ?r2 (4 + 1) = Some [0x3A, 0x31, 0x32, 0x7D]"
    "pages ?r2 (4 + 2) = Some [0x78, 0x78, 0x78, 0x78]"
    "pages ?r2 (4 + 3) = Some [0x78, 0x78, 0x22, 0x7D]"
    "pages ?r2 (4 + 4) = None"
    unfolding pg by (simp_all add: payload_buffers blocks_of_8 blocks_of_16)
  have f: "\<forall>j<4. full ?r2 j"
  proof (intro allI impI)
    fix j :: nat assume "j < 4"
    then consider "j = 0" | "j = 1" | "j = 2" | "j = 3" by arith
    then show "full ?r2 j"
      by cases (simp_all only: full_def p stale_chunks blockSize_def option.case, simp_all)
  qed
  have bb: "block_bytes ?r2 0 = [0x7B, 0x22, 0x61, 0x22]"
    "block_bytes ?r2 1 = [0x3A, 0x31, 0x32, 0x7D]"
    "block_bytes ?r2 2 = [0x78, 0x78, 0x78, 0x78]"
    "block_bytes ?r2 3 = [0x78, 0x78, 0x22, 0x7D]"
    using p(1-4) by (simp_all only: block_bytes_def add_0_right option.case stale_chunks)
  have loop: "read_loop ?r2 0 [] =
      Some ([0x7B, 0x22, 0x61, 0x22, 0x3A, 0x31, 0x32, 0x7D, 0x78, 0x78, 0x78, 0x78, 0x78, 0x78, 0x22, 0x7D],
            4, logged ?r2 (map (\<lambda>j. Read (4 + j) blockSize) [0..<4 + 1]))"
    using read_loop_ends_fail [OF f p(5)] by (simp only: upt_4 list.map concat.simps bb append.simps)
  have c: "card ?r2 \<noteq> None" by (simp add: reader_of_def)
  have pd: "parse_data Some stale_read = Inr stale_read"
    by (simp add: parse_data_def stale_read_def startsWith_def endsWith_def)
  have rd: "nfcRead Some (Some ?r2) =
      Some (Response 200 (Data stale_read), Some (logged ?r2 (map (\<lambda>j. Read (4 + j) blockSize) [0..<4 + 1])))"
    using nfcRead_result [OF c loop, of Some] by (simp only: stale_chunks pd sum.case)
  have ne: "stale_read \<noteq> short_payload"
    by (simp add: stale_read_def short_payload_def)
  have pd': "parse_data (parse_only short_payload) stale_read = Inl SyntaxError"
    using ne by (simp add: parse_data_def parse_only_def stale_read_def startsWith_def endsWith_def)
  have rd': "nfcRead (parse_only short_payload) (Some ?r2) =
      Some (ReadFailed, Some (logged ?r2 (map (\<lambda>j. Read (4 + j) blockSize) [0..<4 + 1])))"
    using nfcRead_result [OF c loop, of "parse_only short_payload"]
    by (simp only: stale_chunks pd' sum.case)
  show ?thesis
    by (simp only: n1 n2 rd rd' fst_conv snd_conv option.map ne) simp
qed

text \<open>
  C1 as amended leaves payloads with characters beyond ASCII out. The read loop
  decodes each block of 4 bytes on its own and compares the number of characters
  of its text with the block size in bytes (line 121), so a block that holds a
  character of two bytes counts as a short block. On the payload with the key
  \<open>a\<close> and the value e-acute, a serialization of 10 bytes, the write stores
  the three blocks of the serialization and answers with success. The read then
  ends at the second block, whose four bytes are three characters, reconstructs
  the string without its last two characters, and answers with the error
  response of the read, whatever \<open>JSON.parse\<close> is.
\<close>

theorem round_trip_fails_on_two_byte_character:
  assumes "stringify p = [0x7B, 0x22, 0x61, 0x22, 0x3A, 0x22, 0xE9, 0x22, 0x7D]"
    and "card r \<noteq> None"
    and "\<forall>blk. writable r blk"
  shows "\<exists>r'. nfcWrite stringify (Some r) (Object p) = (WriteOk :: 'q response, Some r') \<and>
           pages r' 4 = Some [0x7B, 0x22, 0x61, 0x22] \<and>
           pages r' 5 = Some [0x3A, 0x22, 0xC3, 0xA9] \<and>
           pages r' 6 = Some [0x22, 0x7D, 0, 0] \<and>
           read_loop r' 0 [] =
             Some ([0x7B, 0x22, 0x61, 0x22, 0x3A, 0x22, 0xC3, 0xA9], 2,
                   logged r' [Read 4 4, Read 5 4]) \<and>
           reconstruct [0x7B, 0x22, 0x61, 0x22, 0x3A, 0x22, 0xC3, 0xA9] =
             [0x7B, 0x22, 0x61, 0x22, 0x3A, 0x22, 0xE9] \<and>
           nfcRead parse (Some r') = Some (ReadFailed, Some (logged r' [Read 4 4, Read 5 4]))"
proof -
  let ?B = "[0x7B, 0x22, 0x61, 0x22, 0x3A, 0x22, 0xC3, 0xA9, 0x22, 0x7D, 0, 0] :: byte list"
  let ?r' = "r\<lparr>pages := store_blocks ?B [0..<block_count ?B] (pages r),
              log := log r @ map (\<lambda>j. Write (4 + j) (block_of ?B j)) [0..<block_count ?B]\<rparr>"
  have small: "byteLength (stringify p) \<le> 180" by (simp add: assms(1) e_acute_buffer)
  have w: "nfcWrite stringify (Some r) (Object p) = (WriteOk :: 'q response, Some ?r')"
    using write_all_writable [of stringify p r, OF small assms(3)]
    by (simp add: assms(1) e_acute_buffer)
  have p4: "pages ?r' 4 = Some [0x7B, 0x22, 0x61, 0x22]"
    and p5: "pages ?r' 5 = Some [0x3A, 0x22, 0xC3, 0xA9]"
    and p6: "pages ?r' 6 = Some [0x22, 0x7D, 0, 0]"
    by (simp_all add: block_count_numeral upt_small store_blocks_def blocks_of_12)
  have f: "\<forall>j<1. full ?r' j"
    using p4 by (simp add: full_def e_acute_chunks blockSize_def)
  have p5': "pages ?r' (4 + 1) = Some [0x3A, 0x22, 0xC3, 0xA9]"
    using p5 by simp
  have s: "length (chunk_data [0x3A, 0x22, 0xC3, 0xA9]) < blockSize"
    by (simp add: e_acute_chunks blockSize_def)
  have bb: "block_bytes ?r' 0 = [0x7B, 0x22, 0x61, 0x22]"
    using p4 by (simp add: block_bytes_def e_acute_chunks)
  have loop: "read_loop ?r' 0 [] =
      Some ([0x7B, 0x22, 0x61, 0x22, 0x3A, 0x22, 0xC3, 0xA9], 2, logged ?r' [Read 4 4, Read 5 4])"
    using read_loop_ends_short [OF f p5' s]
    by (simp add: upt_small bb e_acute_chunks blockSize_def)
  have c: "card ?r' \<noteq> None" using assms(2) by simp
  have fr: "parse_data parse (reconstruct [0x7B, 0x22, 0x61, 0x22, 0x3A, 0x22, 0xC3, 0xA9]) =
      Inl FramingError"
    by (simp add: e_acute_chunks parse_data_def endsWith_def)
  have rd: "nfcRead parse (Some ?r') = Some (ReadFailed, Some (logged ?r' [Read 4 4, Read 5 4]))"
    using nfcRead_result [OF c loop, of parse] by (simp add: fr)
  from w p4 p5 p6 loop rd e_acute_chunks(5) show ?thesis by blast
qed

theorem round_trip_fails_on_two_byte_character_witness:
  "\<exists>r'. nfcWrite id (Some (reader_of [])) (Object [0x7B, 0x22, 0x61, 0x22, 0x3A, 0x22, 0xE9, 0x22, 0x7D]) =
          (WriteOk :: unit response, Some r') \<and>
        nfcRead Some (Some r') = Some (ReadFailed, Some (logged r' [Read 4 4, Read 5 4]))"
proof -
  have h1: "id [0x7B, 0x22, 0x61, 0x22, 0x3A, 0x22, 0xE9, 0x22, 0x7D] =
      [0x7B, 0x22, 0x61, 0x22, 0x3A, 0x22, 0xE9, 0x22, 0x7D :: 16 word]"
    by simp
  have h2: "card (reader_of []) \<noteq> None" and h3: "\<forall>blk. writable (reader_of []) blk"
    by (simp_all add: reader_of_def)
  from round_trip_fails_on_two_byte_character [of id, OF h1 h2 h3, of Some, where ?'q = unit]
  show ?thesis by blast
qed

subsection \<open>C2: the length of the buffer\<close>

text \<open>
  C2 says that the buffer is no shorter than the UTF-8 serialization and holds
  all its bytes. Line 79 sizes the buffer by \<open>dataString.length\<close>, the number of
  UTF-16 code units, where line 73 measures the same string with
  \<open>Buffer.byteLength\<close>. On the payload with the key of two e-acute characters
  and the value 1, a string of 8 code units and 10 bytes, the buffer has 8 bytes,
  the last two bytes of the serialization are not in it, and the handler writes
  two blocks and answers with success. For every string the length of the buffer
  is a multiple of 4, and for a string of ASCII characters the buffer is as C2
  says (\<open>buffer_length_multiple_of_block_size\<close>,
  \<open>ascii_buffer_holds_serialization\<close>).
\<close>

theorem buffer_sized_by_string_length:
  "length [0x7B, 0x22, 0xE9, 0xE9, 0x22, 0x3A, 0x31, 0x7D :: 16 word] = 8 \<and>
   byteLength [0x7B, 0x22, 0xE9, 0xE9, 0x22, 0x3A, 0x31, 0x7D] = 10 \<and>
   utf8_encode [0x7B, 0x22, 0xE9, 0xE9, 0x22, 0x3A, 0x31, 0x7D] =
     [0x7B, 0x22, 0xC3, 0xA9, 0xC3, 0xA9, 0x22, 0x3A, 0x31, 0x7D] \<and>
   make_buffer [0x7B, 0x22, 0xE9, 0xE9, 0x22, 0x3A, 0x31, 0x7D] =
     [0x7B, 0x22, 0xC3, 0xA9, 0xC3, 0xA9, 0x22, 0x3A] \<and>
   length (make_buffer [0x7B, 0x22, 0xE9, 0xE9, 0x22, 0x3A, 0x31, 0x7D]) <
     byteLength [0x7B, 0x22, 0xE9, 0xE9, 0x22, 0x3A, 0x31, 0x7D] \<and>
   (stringify p = [0x7B, 0x22, 0xE9, 0xE9, 0x22, 0x3A, 0x31, 0x7D] \<and> (\<forall>blk. writable r blk) \<longrightarrow>
      nfcWrite stringify (Some r) (Object p) =
        (WriteOk :: 'q response,
         Some (r\<lparr>pages := (pages r)(4 \<mapsto> [0x7B, 0x22, 0xC3, 0xA9], 5 \<mapsto> [0xC3, 0xA9, 0x22, 0x3A]),
                  log := log r @ [Write 4 [0x7B, 0x22, 0xC3, 0xA9], Write 5 [0xC3, 0xA9, 0x22, 0x3A]]\<rparr>)))"
proof (intro conjI impI)
  assume a: "stringify p = [0x7B, 0x22, 0xE9, 0xE9, 0x22, 0x3A, 0x31, 0x7D] \<and> (\<forall>blk. writable r blk)"
  then have b: "byteLength (stringify p) \<le> 180" and w: "\<forall>blk. writable r blk"
    by (simp_all add: two_e_acute_buffer)
  from write_all_writable [of stringify p r, OF b w] a
  show "nfcWrite stringify (Some r) (Object p) =
        (WriteOk :: 'q response,
         Some (r\<lparr>pages := (pages r)(4 \<mapsto> [0x7B, 0x22, 0xC3, 0xA9], 5 \<mapsto> [0xC3, 0xA9, 0x22, 0x3A]),
                  log := log r @ [Write 4 [0x7B, 0x22, 0xC3, 0xA9], Write 5 [0xC3, 0xA9, 0x22, 0x3A]]\<rparr>))"
    by (simp add: two_e_acute_buffer block_count_numeral upt_small store_blocks_def blocks_of_8)
qed (simp_all add: two_e_acute_buffer)

theorem buffer_sized_by_string_length_witness:
  "nfcWrite id (Some (reader_of [])) (Object [0x7B, 0x22, 0xE9, 0xE9, 0x22, 0x3A, 0x31, 0x7D]) =
     (WriteOk :: unit response,
      Some ((reader_of [])\<lparr>pages := (pages (reader_of []))
                               (4 \<mapsto> [0x7B, 0x22, 0xC3, 0xA9], 5 \<mapsto> [0xC3, 0xA9, 0x22, 0x3A]),
              log := log (reader_of []) @
                     [Write 4 [0x7B, 0x22, 0xC3, 0xA9], Write 5 [0xC3, 0xA9, 0x22, 0x3A]]\<rparr>))"
proof -
  have h: "id [0x7B, 0x22, 0xE9, 0xE9, 0x22, 0x3A, 0x31, 0x7D] = [0x7B, 0x22, 0xE9, 0xE9, 0x22, 0x3A, 0x31, 0x7D :: 16 word]
      \<and> (\<forall>blk. writable (reader_of []) blk)"
    by (simp add: reader_of_def)
  note t = buffer_sized_by_string_length [of id "[0x7B, 0x22, 0xE9, 0xE9, 0x22, 0x3A, 0x31, 0x7D]"
      "reader_of []", where ?'q = unit]
  from t [THEN conjunct2, THEN conjunct2, THEN conjunct2, THEN conjunct2, THEN conjunct2,
      THEN mp, OF h]
  show ?thesis .
qed

subsection \<open>C3: the size boundary\<close>

text \<open>
  C3. With a reader attached, a payload whose serialization has at most 180
  bytes passes the size check and its blocks are written: the response is that
  of a finished or of a failed write, never that the data is too large, and it
  is the success response, with one write per block logged, when every block
  can be written. A payload of more than 180 bytes is answered with the
  too-large response and the reader is left as it was: no write was issued. The
  instance takes payloads of exactly 180 and of exactly 181 bytes.
\<close>

theorem size_boundary:
  "(byteLength (stringify p) \<le> 180 \<longrightarrow>
      fst (nfcWrite stringify (Some r) (Object p) :: 'q response \<times> 'c reader option)
        \<in> {WriteOk, WriteFailed} \<and>
      ((\<forall>j < block_count (make_buffer (stringify p)). writable r (4 + j)) \<longrightarrow>
         nfcWrite stringify (Some r) (Object p) =
           (WriteOk :: 'q response,
            Some (r\<lparr>pages := store_blocks (make_buffer (stringify p))
                               [0..<block_count (make_buffer (stringify p))] (pages r),
                     log := log r @ map (\<lambda>j. Write (4 + j) (block_of (make_buffer (stringify p)) j))
                               [0..<block_count (make_buffer (stringify p))]\<rparr>)))) \<and>
   (180 < byteLength (stringify p) \<longrightarrow>
      nfcWrite stringify (Some r) (Object p) = (PayloadTooLarge :: 'q response, Some r))"
proof (intro conjI impI)
  assume small: "byteLength (stringify p) \<le> 180"
  obtain res r' where wl: "write_loop r (make_buffer (stringify p)) 0 = (res, r')"
    by (cases "write_loop r (make_buffer (stringify p)) 0")
  show "fst (nfcWrite stringify (Some r) (Object p) :: 'q response \<times> 'c reader option)
      \<in> {WriteOk, WriteFailed}"
    using small by (cases res) (simp_all add: nfcWrite_small wl)
  assume "\<forall>j < block_count (make_buffer (stringify p)). writable r (4 + j)"
  then have "\<forall>j. 0 \<le> j \<and> j < block_count (make_buffer (stringify p)) \<longrightarrow> writable r (4 + j)"
    by simp
  from write_loop_all_writable [OF this]
  show "nfcWrite stringify (Some r) (Object p) =
           (WriteOk :: 'q response,
            Some (r\<lparr>pages := store_blocks (make_buffer (stringify p))
                               [0..<block_count (make_buffer (stringify p))] (pages r),
                     log := log r @ map (\<lambda>j. Write (4 + j) (block_of (make_buffer (stringify p)) j))
                               [0..<block_count (make_buffer (stringify p))]\<rparr>))"
    using small by (simp add: nfcWrite_small)
next
  assume "180 < byteLength (stringify p)"
  then show "nfcWrite stringify (Some r) (Object p) = (PayloadTooLarge :: 'q response, Some r)"
    by (simp add: nfcWrite_def Let_def)
qed

theorem size_boundary_witness:
  "byteLength (payload_of_size 180) = 180 \<and>
   fst (nfcWrite id (Some (reader_of [])) (Object (payload_of_size 180))
          :: unit response \<times> unit reader option) = WriteOk \<and>
   byteLength (payload_of_size 181) = 181 \<and>
   nfcWrite id (Some (reader_of [])) (Object (payload_of_size 181)) =
     (PayloadTooLarge :: unit response, Some (reader_of []))"
proof -
  have l180: "byteLength (id (payload_of_size 180)) \<le> 180"
    and l181: "180 < byteLength (id (payload_of_size 181))"
    by (simp_all add: byteLength_payload_of_size)
  have w: "\<forall>j < block_count (make_buffer (id (payload_of_size 180))). writable (reader_of []) (4 + j)"
    by (simp add: reader_of_def)
  note t = size_boundary [of id "payload_of_size 180" "reader_of []", where ?'q = unit]
  note u = size_boundary [of id "payload_of_size 181" "reader_of []", where ?'q = unit]
  note ok = t [THEN conjunct1, THEN mp, OF l180, THEN conjunct2, THEN mp, OF w]
  note large = u [THEN conjunct2, THEN mp, OF l181]
  have "fst (nfcWrite id (Some (reader_of [])) (Object (payload_of_size 180))
          :: unit response \<times> unit reader option) = WriteOk"
    by (simp only: ok fst_conv)
  with large show ?thesis
    by (simp add: byteLength_payload_of_size)
qed

subsection \<open>C4: a short block ends the read loop\<close>

text \<open>
  C4. When the loop reaches block \<open>4 + k\<close> (every earlier block was read with
  no fewer than 4 characters of text) and the content of that block, the null
  ones removed, is shorter than the block size, counted in characters of its
  text or in bytes of the chunk, the loop ends there: it returns after
  \<open>k + 1\<close> reads, of the blocks \<open>4\<close> to \<open>4 + k\<close>, and the block
  \<open>4 + (k + 1)\<close> is not read. In the instance below the third block holds two
  bytes that are not null and the fourth block is never read.
\<close>

theorem short_block_ends_loop:
  assumes "\<forall>j<k. full r j"
    and "pages r (4 + k) = Some chunk"
    and "length (chunk_data chunk) < blockSize \<or>
         length (filter (\<lambda>b. b \<noteq> 0) chunk) < blockSize"
  shows "read_loop r 0 [] =
           Some (concat (map (block_bytes r) [0..<k]) @ utf8_encode (chunk_data chunk), k + 1,
                 logged r (map (\<lambda>j. Read (4 + j) blockSize) [0..<k + 1])) \<and>
         Read (4 + (k + 1)) blockSize \<notin> set (map (\<lambda>j. Read (4 + j) blockSize) [0..<k + 1])"
proof -
  from assms(3) chunk_data_length_le [of chunk]
  have "length (chunk_data chunk) < blockSize" by auto
  from read_loop_ends_short [OF assms(1,2) this] show ?thesis by auto
qed

theorem short_block_ends_loop_witness:
  "read_loop (reader_of [(4, [0x61, 0x62, 0x63, 0x64]), (5, [0x65, 0x66, 0x67, 0x68]),
                         (6, [0x69, 0x6A, 0, 0]), (7, [0x6B, 0x6C, 0x6D, 0x6E])]) 0 [] =
     Some ([0x61, 0x62, 0x63, 0x64, 0x65, 0x66, 0x67, 0x68, 0x69, 0x6A], 3,
           logged (reader_of [(4, [0x61, 0x62, 0x63, 0x64]), (5, [0x65, 0x66, 0x67, 0x68]),
                              (6, [0x69, 0x6A, 0, 0]), (7, [0x6B, 0x6C, 0x6D, 0x6E])])
             [Read 4 4, Read 5 4, Read 6 4]) \<and>
   Read 7 4 \<notin> set [Read 4 4, Read 5 4, Read 6 4]"
proof -
  let ?r = "reader_of [(4, [0x61, 0x62, 0x63, 0x64]), (5, [0x65, 0x66, 0x67, 0x68]),
                         (6, [0x69, 0x6A, 0, 0]), (7, [0x6B, 0x6C, 0x6D, 0x6E])]"
  have c4: "chunk_data [0x61, 0x62, 0x63, 0x64] = [0x61, 0x62, 0x63, 0x64]"
    and c5: "chunk_data [0x65, 0x66, 0x67, 0x68] = [0x65, 0x66, 0x67, 0x68]"
    and c6: "chunk_data [0x69, 0x6A, 0, 0] = [0x69, 0x6A]"
    by (simp_all add: dec_defs)
  have h1: "\<forall>j<2. full ?r j"
    by (auto simp: less_2_cases_iff full_def reader_of_def c4 c5 blockSize_def)
  have h2: "pages ?r (4 + 2) = Some [0x69, 0x6A, 0, 0]"
    by (simp add: reader_of_def)
  have h3: "length (chunk_data [0x69, 0x6A, 0, 0]) < blockSize \<or>
      length (filter (\<lambda>b. b \<noteq> 0) [0x69, 0x6A, 0, 0 :: byte]) < blockSize"
    by (simp add: blockSize_def)
  have e: "utf8_encode [0x61, 0x62, 0x63, 0x64] = [0x61, 0x62, 0x63, 0x64]"
    "utf8_encode [0x65, 0x66, 0x67, 0x68] = [0x65, 0x66, 0x67, 0x68]"
    "utf8_encode [0x69, 0x6A] = [0x69, 0x6A]"
    by (simp_all add: enc_defs)
  have u: "[0..<2] = [0, 1]" "[0..<3] = [0, 1, 2]"
    by (simp_all add: numeral_2_eq_2 numeral_3_eq_3)
  show ?thesis
    using short_block_ends_loop [OF h1 h2 h3]
    by (simp add: u block_bytes_def c4 c5 c6 e blockSize_def reader_of_def)
qed

subsection \<open>C5: a failed read ends the read loop quietly\<close>

text \<open>
  C5. When the loop reaches block \<open>4 + k\<close> and the read of that block fails,
  the loop ends with the bytes of the blocks before it, and the handler goes on
  with them: its response is decided by the framing check and the parse of the
  reconstructed string alone, and it is the payload, with status 200, whenever
  that string begins with an opening brace, ends with a closing brace and
  parses. The failure of the read is not reported.
\<close>

theorem read_failure_ends_loop_quietly:
  assumes "card r \<noteq> None"
    and "\<forall>j<k. full r j"
    and "pages r (4 + k) = None"
  shows "read_loop r 0 [] =
           Some (concat (map (block_bytes r) [0..<k]), k,
                 logged r (map (\<lambda>j. Read (4 + j) blockSize) [0..<k + 1])) \<and>
         nfcRead parse (Some r) =
           Some (case parse_data parse (reconstruct (concat (map (block_bytes r) [0..<k]))) of
                   Inl e \<Rightarrow> ReadFailed
                 | Inr data \<Rightarrow> Response 200 (Data data),
                 Some (logged r (map (\<lambda>j. Read (4 + j) blockSize) [0..<k + 1]))) \<and>
         (startsWith (reconstruct (concat (map (block_bytes r) [0..<k]))) 0x7B \<and>
          endsWith (reconstruct (concat (map (block_bytes r) [0..<k]))) 0x7D \<and>
          parse (reconstruct (concat (map (block_bytes r) [0..<k]))) = Some data \<longrightarrow>
          nfcRead parse (Some r) =
            Some (Response 200 (Data data),
                  Some (logged r (map (\<lambda>j. Read (4 + j) blockSize) [0..<k + 1]))))"
proof -
  note loop = read_loop_ends_fail [OF assms(2,3)]
  note res = nfcRead_result [OF assms(1) loop]
  show ?thesis
  proof (intro conjI impI)
    show "read_loop r 0 [] =
           Some (concat (map (block_bytes r) [0..<k]), k,
                 logged r (map (\<lambda>j. Read (4 + j) blockSize) [0..<k + 1]))"
      by (rule loop)
    show "nfcRead parse (Some r) =
           Some (case parse_data parse (reconstruct (concat (map (block_bytes r) [0..<k]))) of
                   Inl e \<Rightarrow> ReadFailed
                 | Inr data \<Rightarrow> Response 200 (Data data),
                 Some (logged r (map (\<lambda>j. Read (4 + j) blockSize) [0..<k + 1])))"
      by (rule res)
    assume "startsWith (reconstruct (concat (map (block_bytes r) [0..<k]))) 0x7B \<and>
          endsWith (reconstruct (concat (map (block_bytes r) [0..<k]))) 0x7D \<and>
          parse (reconstruct (concat (map (block_bytes r) [0..<k]))) = Some data"
    then show "nfcRead parse (Some r) =
            Some (Response 200 (Data data),
                  Some (logged r (map (\<lambda>j. Read (4 + j) blockSize) [0..<k + 1])))"
      by (simp add: res parse_data_def)
  qed
qed

theorem read_failure_ends_loop_quietly_witness:
  "read_loop (reader_of [(4, [0x7B, 0x22, 0x61, 0x22]), (5, [0x3A, 0x31, 0x32, 0x7D])]) 0 [] =
     Some ([0x7B, 0x22, 0x61, 0x22, 0x3A, 0x31, 0x32, 0x7D], 2,
           logged (reader_of [(4, [0x7B, 0x22, 0x61, 0x22]), (5, [0x3A, 0x31, 0x32, 0x7D])])
             [Read 4 4, Read 5 4, Read 6 4]) \<and>
   nfcRead Some (Some (reader_of [(4, [0x7B, 0x22, 0x61, 0x22]), (5, [0x3A, 0x31, 0x32, 0x7D])])) =
     Some (Response 200 (Data [0x7B, 0x22, 0x61, 0x22, 0x3A, 0x31, 0x32, 0x7D]),
           Some (logged (reader_of [(4, [0x7B, 0x22, 0x61, 0x22]), (5, [0x3A, 0x31, 0x32, 0x7D])])
             [Read 4 4, Read 5 4, Read 6 4]))"
proof -
  let ?r = "reader_of [(4, [0x7B, 0x22, 0x61, 0x22]), (5, [0x3A, 0x31, 0x32, 0x7D])]"
  have c: "chunk_data [0x7B, 0x22, 0x61, 0x22] = [0x7B, 0x22, 0x61, 0x22]"
    "chunk_data [0x3A, 0x31, 0x32, 0x7D] = [0x3A, 0x31, 0x32, 0x7D]"
    by (simp_all add: dec_defs)
  have e: "utf8_encode [0x7B, 0x22, 0x61, 0x22] = [0x7B, 0x22, 0x61, 0x22]"
    "utf8_encode [0x3A, 0x31, 0x32, 0x7D] = [0x3A, 0x31, 0x32, 0x7D]"
    by (simp_all add: enc_defs)
  have b: "block_bytes ?r 0 = [0x7B, 0x22, 0x61, 0x22]"
    "block_bytes ?r (Suc 0) = [0x3A, 0x31, 0x32, 0x7D]"
    by (simp_all add: block_bytes_def reader_of_def c e)
  have rc: "reconstruct [0x7B, 0x22, 0x61, 0x22, 0x3A, 0x31, 0x32, 0x7D] =
      [0x7B, 0x22, 0x61, 0x22, 0x3A, 0x31, 0x32, 0x7D]"
    by (simp add: dec_defs)
  have h1: "card ?r \<noteq> None" by (simp add: reader_of_def)
  have h2: "\<forall>j<2. full ?r j"
    by (auto simp: less_2_cases_iff full_def reader_of_def c blockSize_def)
  have h3: "pages ?r (4 + 2) = None" by (simp add: reader_of_def)
  have fr: "startsWith [0x7B, 0x22, 0x61, 0x22, 0x3A, 0x31, 0x32, 0x7D] 0x7B"
    "endsWith [0x7B, 0x22, 0x61, 0x22, 0x3A, 0x31, 0x32, 0x7D] 0x7D"
    by (simp_all add: dec_defs)
  show ?thesis
    using read_failure_ends_loop_quietly [OF h1 h2 h3, of Some
        "[0x7B, 0x22, 0x61, 0x22, 0x3A, 0x31, 0x32, 0x7D]"]
    by (simp add: b rc fr upt_small blockSize_def parse_data_def)
qed

subsection \<open>C6: a string without braces is a framing error\<close>

text \<open>
  C6. When the string reconstructed from the buffer of the read loop, with its
  null characters removed and trimmed, does not both begin with an opening brace
  and end with a closing brace, the framing check throws, \<open>JSON.parse\<close> is
  not reached, and the handler answers with the error response of the read
  (status 500): it neither crashes nor returns a payload. The instance is a tag
  that holds \<open>hello\<close>.
\<close>

theorem malformed_framing:
  assumes "card r \<noteq> None"
    and "read_loop r 0 [] = Some (buffer, i, r')"
    and "\<not> (startsWith (reconstruct buffer) 0x7B \<and> endsWith (reconstruct buffer) 0x7D)"
  shows "parse_data parse (reconstruct buffer) = Inl FramingError \<and>
         nfcRead parse (Some r) = Some (ReadFailed, Some r')"
proof -
  from assms(3) have "parse_data parse (reconstruct buffer) = Inl FramingError"
    by (auto simp: parse_data_def)
  with nfcRead_result [OF assms(1,2), of parse] show ?thesis by simp
qed

theorem malformed_framing_witness:
  "reconstruct [0x68, 0x65, 0x6C, 0x6C, 0x6F] = [0x68, 0x65, 0x6C, 0x6C, 0x6F] \<and>
   parse_data Some [0x68, 0x65, 0x6C, 0x6C, 0x6F] = Inl FramingError \<and>
   nfcRead Some (Some (reader_of [(4, [0x68, 0x65, 0x6C, 0x6C]), (5, [0x6F, 0, 0, 0])])) =
     Some (ReadFailed,
           Some (logged (reader_of [(4, [0x68, 0x65, 0x6C, 0x6C]), (5, [0x6F, 0, 0, 0])])
                   [Read 4 4, Read 5 4]))"
proof -
  let ?r = "reader_of [(4, [0x68, 0x65, 0x6C, 0x6C]), (5, [0x6F, 0, 0, 0])]"
  have c: "chunk_data [0x68, 0x65, 0x6C, 0x6C] = [0x68, 0x65, 0x6C, 0x6C]"
    "chunk_data [0x6F, 0, 0, 0] = [0x6F]"
    by (simp_all add: dec_defs)
  have e: "utf8_encode [0x68, 0x65, 0x6C, 0x6C] = [0x68, 0x65, 0x6C, 0x6C]"
    "utf8_encode [0x6F] = [0x6F]"
    by (simp_all add: enc_defs)
  have f: "\<forall>j<1. full ?r j"
    by (simp add: full_def reader_of_def c blockSize_def)
  have p: "pages ?r (4 + 1) = Some [0x6F, 0, 0, 0]" by (simp add: reader_of_def)
  have s: "length (chunk_data [0x6F, 0, 0, 0]) < blockSize" by (simp add: c blockSize_def)
  have loop: "read_loop ?r 0 [] =
      Some ([0x68, 0x65, 0x6C, 0x6C, 0x6F], 2, logged ?r [Read 4 4, Read 5 4])"
    using read_loop_ends_short [OF f p s]
    by (simp add: upt_small block_bytes_def reader_of_def c e blockSize_def)
  have rc: "reconstruct [0x68, 0x65, 0x6C, 0x6C, 0x6F] = [0x68, 0x65, 0x6C, 0x6C, 0x6F]"
    by (simp add: dec_defs)
  have h1: "card ?r \<noteq> None" by (simp add: reader_of_def)
  have h3: "\<not> (startsWith (reconstruct [0x68, 0x65, 0x6C, 0x6C, 0x6F]) 0x7B \<and>
      endsWith (reconstruct [0x68, 0x65, 0x6C, 0x6C, 0x6F]) 0x7D)"
    by (simp add: rc startsWith_def)
  show ?thesis
    using malformed_framing [OF h1 loop h3, of Some] by (simp add: rc)
qed

subsection \<open>C7: no reader\<close>

text \<open>
  C7. When \<open>currentReader\<close> is \<open>null\<close>, the write handler (on a body that is
  an object) and the read handler both answer that no reader is connected, and
  there is no reader after the request either: no block was read or written.
\<close>

theorem no_reader:
  "nfcWrite stringify None (Object p) = (NoReaderAvailable, None) \<and>
   nfcRead parse None = Some (NoReaderAvailable, None)"
  by (simp add: nfcWrite_def nfcRead_def)

theorem no_reader_witness:
  "nfcWrite id initial_currentReader (Object [0x7B, 0x7D]) =
     (NoReaderAvailable :: unit response, None :: unit reader option) \<and>
   nfcRead Some (on_end (Some (reader_of []))) =
     Some (NoReaderAvailable :: jsstring response, None :: unit reader option)"
  using no_reader [of id "[0x7B, 0x7D]" Some]
  by (simp add: initial_currentReader_def on_end_def)

subsection \<open>C8: no card\<close>

text \<open>
  C8. When a reader is attached and its \<open>card\<close> property is empty, the read
  handler answers that no card is detected and leaves the reader as it was: its
  log of reads and writes is unchanged, so no block was read. The handlers of
  \<open>card\<close> and \<open>card.off\<close> only log; the \<open>card\<close> property is the
  driver's record of the card on the reader.
\<close>

theorem no_card:
  "card r = None \<Longrightarrow> nfcRead parse (Some r) = Some (NoCardPresent, Some r)"
  by (simp add: nfcRead_def)

theorem no_card_witness:
  "nfcRead Some (Some ((reader_of [(4, [0x7B, 0x7D, 0, 0])])\<lparr>card := None\<rparr>)) =
     Some (NoCardPresent, Some ((reader_of [(4, [0x7B, 0x7D, 0, 0])])\<lparr>card := None\<rparr>))"
  by (rule no_card) simp

subsection \<open>C9: the missing-data branch\<close>

text \<open>
  C9. Whatever the request body and the session, the write handler never
  answers that the data field is missing: the object built from the body is
  truthy. A body that is the empty object, serialized as an opening and a
  closing brace, passes the check and is written as one block, the two braces
  followed by two null bytes, at block 4.
\<close>

theorem missing_data_unreachable:
  "fst (nfcWrite stringify currentReader req_body :: 'q response \<times> 'c reader option)
      \<noteq> MissingData \<and>
   (stringify p = [0x7B, 0x7D] \<and> writable r 4 \<longrightarrow>
      nfcWrite stringify (Some r) (Object p) =
        (WriteOk, Some (r\<lparr>pages := (pages r)(4 \<mapsto> [0x7B, 0x7D, 0, 0]),
                           log := log r @ [Write 4 [0x7B, 0x7D, 0, 0]]\<rparr>)))"
proof (intro conjI impI)
  have "fst (nfcWrite stringify currentReader req_body :: 'q response \<times> 'c reader option)
      \<in> {WriteFailed, NoReaderAvailable, PayloadTooLarge, WriteOk}"
    by (rule nfcWrite_cases)
  then show "fst (nfcWrite stringify currentReader req_body :: 'q response \<times> 'c reader option)
      \<noteq> MissingData"
    by (auto simp: responses_distinct)
next
  assume a: "stringify p = [0x7B, 0x7D] \<and> writable r 4"
  have wl: "write_loop r [0x7B, 0x7D, 0, 0] 0 =
    (Inr (), r\<lparr>pages := (pages r)(4 \<mapsto> [0x7B, 0x7D, 0, 0]),
               log := log r @ [Write 4 [0x7B, 0x7D, 0, 0]]\<rparr>)"
    using a
    by (subst write_loop_all_writable)
       (simp_all add: block_count_numeral upt_small store_blocks_def block_of_def slice_def blockSize_def)
  from a show "nfcWrite stringify (Some r) (Object p) =
        (WriteOk, Some (r\<lparr>pages := (pages r)(4 \<mapsto> [0x7B, 0x7D, 0, 0]),
                           log := log r @ [Write 4 [0x7B, 0x7D, 0, 0]]\<rparr>))"
    by (simp add: nfcWrite_small empty_object_buffer wl)
qed

theorem missing_data_unreachable_witness:
  "fst (nfcWrite id (Some (reader_of [])) Undefined :: unit response \<times> unit reader option) \<noteq> MissingData \<and>
   nfcWrite id (Some (reader_of [])) (Object [0x7B, 0x7D]) =
     (WriteOk :: unit response,
      Some ((reader_of [])\<lparr>pages := (pages (reader_of []))(4 \<mapsto> [0x7B, 0x7D, 0, 0]),
                            log := log (reader_of []) @ [Write 4 [0x7B, 0x7D, 0, 0]]\<rparr>))"
  using missing_data_unreachable [of id "Some (reader_of [])" Undefined "[0x7B, 0x7D]" "reader_of []"]
  by (simp add: reader_of_def)

subsection \<open>C10: when the read loop ends\<close>

text \<open>
  C10 says that the read loop ends only when a read fails or a block holds fewer
  than 4 bytes that are not null, and that it never ends on a reader where every
  read succeeds and returns 4 such bytes. Line 121 compares
  \<open>chunkData.length\<close>, the number of UTF-16 code units of the text of the chunk,
  with the block size in bytes, where the write loop stores any four bytes as a
  full block that is not the last. A block that is read with the four bytes of
  two e-acute characters, none of them null, has a text of 2 characters and ends
  the loop after one read, whatever the blocks after it hold: the block after it
  is never read. The instance is a reader where every read succeeds and returns
  these four bytes.
\<close>

theorem two_byte_characters_end_loop:
  assumes "pages r 4 = Some [0xC3, 0xA9, 0xC3, 0xA9]"
  shows "length [0xC3, 0xA9, 0xC3, 0xA9 :: byte] = 4 \<and>
         0 \<notin> set [0xC3, 0xA9, 0xC3, 0xA9 :: byte] \<and>
         chunk_data [0xC3, 0xA9, 0xC3, 0xA9] = [0xE9, 0xE9] \<and>
         read_loop r 0 [] = Some ([0xC3, 0xA9, 0xC3, 0xA9], 1, logged r [Read 4 4])"
proof -
  have c: "chunk_data [0xC3, 0xA9, 0xC3, 0xA9] = [0xE9, 0xE9]"
    by (simp add: dec_defs)
  have e: "utf8_encode [0xE9, 0xE9] = [0xC3, 0xA9, 0xC3, 0xA9]"
    by (simp add: enc_defs)
  have p: "pages r (4 + 0) = Some [0xC3, 0xA9, 0xC3, 0xA9]"
    using assms by simp
  have s: "length (chunk_data [0xC3, 0xA9, 0xC3, 0xA9]) < blockSize"
    by (simp add: c blockSize_def)
  from read_loop_short [OF p s, of "[]"] show ?thesis
    by (simp add: c e blockSize_def)
qed

theorem two_byte_characters_end_loop_witness:
  "pages (uniform_reader [0xC3, 0xA9, 0xC3, 0xA9]) 4 = Some [0xC3, 0xA9, 0xC3, 0xA9] \<and>
   pages (uniform_reader [0xC3, 0xA9, 0xC3, 0xA9]) 5 = Some [0xC3, 0xA9, 0xC3, 0xA9] \<and>
   chunk_data [0xC3, 0xA9, 0xC3, 0xA9] = [0xE9, 0xE9] \<and>
   read_loop (uniform_reader [0xC3, 0xA9, 0xC3, 0xA9]) 0 [] =
     Some ([0xC3, 0xA9, 0xC3, 0xA9], 1, logged (uniform_reader [0xC3, 0xA9, 0xC3, 0xA9]) [Read 4 4])"
proof -
  have p: "pages (uniform_reader [0xC3, 0xA9, 0xC3, 0xA9]) 4 = Some [0xC3, 0xA9, 0xC3, 0xA9]"
    "pages (uniform_reader [0xC3, 0xA9, 0xC3, 0xA9]) 5 = Some [0xC3, 0xA9, 0xC3, 0xA9]"
    by (simp_all add: uniform_reader_def)
  from two_byte_characters_end_loop [OF p(1)] p show ?thesis by simp
qed

end
